theory Spec2Isabelle
  imports Main "HOL-Library.Sublist"
begin

section \<open>THEIA host monitor: output parsers and change tracker\<close>

text \<open>
  A shallow embedding of \<^verbatim>\<open>theia-cli2.js\<close>: the parsers \<^verbatim>\<open>parseConnections\<close> and
  \<^verbatim>\<open>parseProcesses\<close>, the display annotation of \<^verbatim>\<open>displayConnections\<close> and
  \<^verbatim>\<open>displayProcesses\<close>, and the poll cycle \<^verbatim>\<open>monitor\<close> with the module state it
  mutates.

  Strings are lists of characters. The embedding is exact on ASCII text: white space is
  the ASCII white space of JavaScript's \<^verbatim>\<open>\s\<close> and \<^verbatim>\<open>trim\<close> (tab, line feed,
  vertical tab, form feed, carriage return, space), and \<^verbatim>\<open>toUpperCase\<close> maps the
  letters a to z; every other character is neither white space nor a letter. Instants
  are integers (milliseconds, as \<^verbatim>\<open>Date.now()\<close> returns).
\<close>

subsection \<open>String operations of the JavaScript library\<close>

definition isSpace :: "char \<Rightarrow> bool" where
  "isSpace c = (c = CHR 0x09 \<or> c = CHR 0x0A \<or> c = CHR 0x0B \<or> c = CHR 0x0C \<or> c = CHR 0x0D
     \<or> c = CHR '' '')"

text \<open>\<^verbatim>\<open>s.trim()\<close>\<close>

definition trim :: "string \<Rightarrow> string" where
  "trim s = rev (dropWhile isSpace (rev (dropWhile isSpace s)))"

text \<open>\<^verbatim>\<open>s.split('\n')\<close>: every newline ends a piece, and the last piece is always there.\<close>

fun splitAcc :: "char \<Rightarrow> string \<Rightarrow> string \<Rightarrow> string list" where
  "splitAcc sep cur [] = [cur]"
| "splitAcc sep cur (c # cs) =
     (if c = sep then cur # splitAcc sep [] cs else splitAcc sep (cur @ [c]) cs)"

definition splitLines :: "string \<Rightarrow> string list" where
  "splitLines s = splitAcc (CHR 0x0A) [] s"

text \<open>
  \<^verbatim>\<open>s.split(/\s+/)\<close>: a maximal run of white space separates two pieces; a string that
  starts or ends with white space gets an empty first or last piece, and the empty string
  gives one empty piece. The flag says that the scanner is inside a separator.
\<close>

fun splitWsAcc :: "string \<Rightarrow> bool \<Rightarrow> string \<Rightarrow> string list" where
  "splitWsAcc cur inSep [] = [cur]"
| "splitWsAcc cur inSep (c # cs) =
     (if isSpace c then (if inSep then splitWsAcc cur True cs else cur # splitWsAcc [] True cs)
      else splitWsAcc (cur @ [c]) False cs)"

definition splitWs :: "string \<Rightarrow> string list" where
  "splitWs s = splitWsAcc [] False s"

text \<open>\<^verbatim>\<open>s.startsWith(p)\<close> and \<^verbatim>\<open>s.includes(p)\<close>\<close>

fun startsWith :: "string \<Rightarrow> string \<Rightarrow> bool" where
  "startsWith s [] = True"
| "startsWith [] (p # ps) = False"
| "startsWith (c # cs) (p # ps) = (c = p \<and> startsWith cs ps)"

fun includesStr :: "string \<Rightarrow> string \<Rightarrow> bool" where
  "includesStr [] p = (p = [])"
| "includesStr (c # cs) p = (startsWith (c # cs) p \<or> includesStr cs p)"

text \<open>\<^verbatim>\<open>xs.join(sep)\<close>\<close>

fun join :: "string \<Rightarrow> string list \<Rightarrow> string" where
  "join sep [] = []"
| "join sep [x] = x"
| "join sep (x # y # ys) = x @ sep @ join sep (y # ys)"

text \<open>\<^verbatim>\<open>s.toUpperCase()\<close>\<close>

definition upperChar :: "char \<Rightarrow> char" where
  "upperChar c =
     (let n = (of_char c :: nat) in if 97 \<le> n \<and> n \<le> 122 then char_of (n - 32) else c)"

definition toUpperCase :: "string \<Rightarrow> string" where
  "toUpperCase s = map upperChar s"

text \<open>
  \<^verbatim>\<open>output.split('\n').filter(line => line.trim())\<close>: the lines that are not blank.
\<close>

definition outputLines :: "string \<Rightarrow> string list" where
  "outputLines output = filter (\<lambda>line. trim line \<noteq> []) (splitLines output)"

text \<open>
  \<^verbatim>\<open>lines.forEach((line, idx) => { ... })\<close> where the body either returns or pushes one
  record: the body is a function to an optional record, and the loop appends what it
  gives to the array, in the order of the lines.
\<close>

fun pushEach :: "('a \<Rightarrow> nat \<Rightarrow> 'r option) \<Rightarrow> 'a list \<Rightarrow> nat \<Rightarrow> 'r list \<Rightarrow> 'r list" where
  "pushEach body [] idx acc = acc"
| "pushEach body (x # xs) idx acc =
     pushEach body xs (Suc idx) (case body x idx of None \<Rightarrow> acc | Some r \<Rightarrow> acc @ [r])"

subsection \<open>The field scanner of the Windows process loop\<close>

definition dquote :: char where
  "dquote = CHR 0x22"

text \<open>
  The scanner of the Windows loop, over the characters of \<^verbatim>\<open>line + ','\<close>: the field
  being read, the flag \<^verbatim>\<open>inQuotes\<close> and the fields pushed so far.
\<close>

fun scanFields :: "string \<Rightarrow> string \<Rightarrow> bool \<Rightarrow> string list \<Rightarrow> string list" where
  "scanFields [] current inQuotes fields = fields"
| "scanFields (char # rest) current inQuotes fields =
     (if char = dquote \<and> \<not> inQuotes then scanFields rest current True fields
      else if char = dquote \<and> inQuotes then scanFields rest current False fields
      else if char = CHR '','' \<and> \<not> inQuotes then
        scanFields rest [] inQuotes (fields @ [trim current])
      else scanFields rest (current @ [char]) inQuotes fields)"

text \<open>\<^verbatim>\<open>s.replace(/^"/, '')\<close> and \<^verbatim>\<open>s.replace(/"$/, '')\<close>\<close>

fun stripLeadingQuote :: "string \<Rightarrow> string" where
  "stripLeadingQuote [] = []"
| "stripLeadingQuote (c # cs) = (if c = dquote then cs else c # cs)"

definition stripTrailingQuote :: "string \<Rightarrow> string" where
  "stripTrailingQuote s = rev (stripLeadingQuote (rev s))"

subsection \<open>Records\<close>

datatype osType = Windows | Mac | Unix

record connection =
  protocol :: string
  local :: string
  remote :: string
  state :: string
  process :: string
  family :: "string option"
  conn_id :: string

record proc =
  name :: string
  pid :: string
  user :: string
  cpu :: string
  mem :: string
  proc_id :: string

subsection \<open>parseConnections\<close>

text \<open>
  The body of the Windows loop (\<^verbatim>\<open>netstat -ano\<close>). On a line of fewer than three
  parts \<^verbatim>\<open>remote = parts[2]\<close> is undefined, so the test \<^verbatim>\<open>remote && ...\<close> fails and
  nothing is pushed; with three parts or more \<^verbatim>\<open>parts[0]\<close>, \<^verbatim>\<open>parts[1]\<close> and
  \<^verbatim>\<open>parts[2]\<close> are strings, and \<^verbatim>\<open>parts[3] || 'N/A'\<close> is the fourth part unless it is
  undefined or empty.
\<close>

definition windowsConnLine :: "string \<Rightarrow> connection option" where
  "windowsConnLine line =
     (case splitWs (trim line) of
        p0 # p1 # p2 # rest \<Rightarrow>
          if p0 = ''TCP'' \<or> p0 = ''UDP'' then
            (let state = (case rest of [] \<Rightarrow> ''N/A'' | p3 # _ \<Rightarrow> if p3 = [] then ''N/A'' else p3)
             in if p2 \<noteq> [] \<and> p2 \<noteq> ''0.0.0.0:0'' \<and> p2 \<noteq> ''*:*'' then
                  Some \<lparr>protocol = p0, local = p1, remote = p2, state = state,
                    process = ''Unknown'', family = None,
                    conn_id = p0 @ ''|'' @ p1 @ ''|'' @ p2 @ ''|'' @ state\<rparr>
                else None)
          else None
      | _ \<Rightarrow> None)"

text \<open>
  The regular expression \<^verbatim>\<open>/([^\->]+)->([^\(]+)\s*\(ESTABLISHED\)/\<close> of the macOS loop, as
  the backtracking matcher runs it: the start positions from the left, and at each one
  every greedy piece from its longest length down.
\<close>

fun matchTail :: "nat \<Rightarrow> string \<Rightarrow> bool" where
  "matchTail 0 s = startsWith s ''(ESTABLISHED)''"
| "matchTail (Suc k) s = (startsWith (drop (Suc k) s) ''(ESTABLISHED)'' \<or> matchTail k s)"

fun matchRemote :: "nat \<Rightarrow> string \<Rightarrow> string option" where
  "matchRemote 0 s = None"
| "matchRemote (Suc n) s =
     (if matchTail (length (takeWhile isSpace (drop (Suc n) s))) (drop (Suc n) s)
      then Some (take (Suc n) s) else matchRemote n s)"

fun matchLocal :: "nat \<Rightarrow> string \<Rightarrow> (string \<times> string) option" where
  "matchLocal 0 s = None"
| "matchLocal (Suc n) s =
     (if startsWith (drop (Suc n) s) ''->'' then
        (case matchRemote (length (takeWhile (\<lambda>c. c \<noteq> CHR ''('') (drop (Suc n + 2) s)))
                (drop (Suc n + 2) s) of
           Some m2 \<Rightarrow> Some (take (Suc n) s, m2)
         | None \<Rightarrow> matchLocal n s)
      else matchLocal n s)"

fun matchEstablished :: "string \<Rightarrow> (string \<times> string) option" where
  "matchEstablished [] = None"
| "matchEstablished (c # cs) =
     (case matchLocal (length (takeWhile (\<lambda>c. c \<noteq> CHR ''-'' \<and> c \<noteq> CHR ''>'') (c # cs))) (c # cs) of
        Some m \<Rightarrow> Some m
      | None \<Rightarrow> matchEstablished cs)"

text \<open>The body of the macOS loop (\<^verbatim>\<open>lsof -iTCP -sTCP:ESTABLISHED -n -P\<close>).\<close>

definition macConnLine :: "string \<Rightarrow> connection option" where
  "macConnLine line =
     (if includesStr line ''TCP'' \<and> includesStr line ''ESTABLISHED'' then
        (let parts = splitWs (trim line) in
         if length parts < 9 then None
         else
           (let process = parts ! 0; pid = parts ! 1; type = parts ! 3;
                namePart = join '' '' (drop 8 parts)
            in case matchEstablished namePart of
                 None \<Rightarrow> None
               | Some (m1, m2) \<Rightarrow>
                   (let local = trim m1; remote = trim m2
                    in Some \<lparr>protocol = ''TCP'', local = local, remote = remote,
                         state = ''ESTABLISHED'',
                         process = process @ '' ('' @ pid @ '')'',
                         family = Some type,
                         conn_id = ''TCP'' @ ''|'' @ local @ ''|'' @ remote @ ''|''
                           @ ''ESTABLISHED'' @ ''|'' @ process @ ''|'' @ pid\<rparr>)))
      else None)"

text \<open>
  The body of the fallback loop (\<^verbatim>\<open>ss -tunap\<close> or \<^verbatim>\<open>netstat -tunap\<close>). With five parts
  or more, \<^verbatim>\<open>parts[0]\<close> to \<^verbatim>\<open>parts[4]\<close> are strings and \<^verbatim>\<open>parts[5]\<close>,
  \<^verbatim>\<open>parts[6]\<close> may be undefined; \<^verbatim>\<open>a || b\<close> takes \<open>b\<close> when \<open>a\<close> is undefined or empty.
\<close>

definition orElse :: "string list \<Rightarrow> nat \<Rightarrow> string \<Rightarrow> string" where
  "orElse parts i d = (if i < length parts \<and> parts ! i \<noteq> [] then parts ! i else d)"

definition unixConnLine :: "string \<Rightarrow> nat \<Rightarrow> connection option" where
  "unixConnLine line idx =
     (if idx = 0 then None
      else if includesStr line '':'' then
        (let parts = splitWs (trim line) in
         if length parts \<ge> 5 then
           (let protocol = toUpperCase (orElse parts 0 ''TCP'');
                state = orElse parts 1 ''ESTABLISHED'';
                local = orElse parts 4 (parts ! 3);
                remote = orElse parts 5 (parts ! 4);
                process = orElse parts 6 ''Unknown''
            in if local \<noteq> [] \<and> remote \<noteq> [] \<and> remote \<noteq> ''*'' \<and> \<not> includesStr remote ''*:*'' then
                 Some \<lparr>protocol = protocol, local = local, remote = remote, state = state,
                   process = process, family = None,
                   conn_id = protocol @ ''|'' @ local @ ''|'' @ remote @ ''|'' @ state\<rparr>
               else None)
         else None)
      else None)"

definition parseConnections :: "string \<Rightarrow> osType \<Rightarrow> connection list" where
  "parseConnections output os =
     (let lines = outputLines output in
      case os of
        Windows \<Rightarrow> pushEach (\<lambda>line idx. windowsConnLine line) lines 0 []
      | Mac \<Rightarrow> pushEach (\<lambda>line idx. macConnLine line) lines 0 []
      | Unix \<Rightarrow> pushEach unixConnLine lines 0 [])"

subsection \<open>parseProcesses\<close>

text \<open>The body of the Windows loop (\<^verbatim>\<open>tasklist /v /fo csv\<close>).\<close>

definition windowsProcLine :: "string \<Rightarrow> nat \<Rightarrow> proc option" where
  "windowsProcLine line idx =
     (if idx < 1 then None
      else
        (let fields = scanFields (line @ '','') [] False [] in
         if length fields \<ge> 2 then
           (let name = stripTrailingQuote (stripLeadingQuote (fields ! 0));
                pid = stripTrailingQuote (stripLeadingQuote (fields ! 1));
                user = orElse fields 6 ''N/A'';
                cpu = orElse fields 7 ''N/A'';
                mem = orElse fields 4 ''N/A''
            in Some \<lparr>name = name, pid = pid, user = user, cpu = cpu, mem = mem,
                 proc_id = name @ ''|'' @ pid\<rparr>)
         else None))"

text \<open>The body of the other loop (\<^verbatim>\<open>ps aux\<close>).\<close>

definition unixProcLine :: "string \<Rightarrow> nat \<Rightarrow> proc option" where
  "unixProcLine line idx =
     (if idx = 0 then None
      else
        (let parts = splitWs (trim line) in
         if length parts \<ge> 11 then
           (let user = parts ! 0; pid = parts ! 1; cpu = parts ! 2; mem = parts ! 3;
                command = join '' '' (drop 10 parts)
            in Some \<lparr>name = command, pid = pid, user = user, cpu = cpu, mem = mem,
                 proc_id = command @ ''|'' @ pid\<rparr>)
         else None))"

definition parseProcesses :: "string \<Rightarrow> osType \<Rightarrow> proc list" where
  "parseProcesses output os =
     (let lines = outputLines output;
          processes = (if os = Windows then pushEach windowsProcLine lines 0 []
                       else pushEach unixProcLine lines 0 [])
      in take 50 processes)"

subsection \<open>Module state and the display\<close>

text \<open>
  The four module variables: \<^verbatim>\<open>previousConnections\<close> and \<^verbatim>\<open>previousProcesses\<close> are
  sets of identity keys, \<^verbatim>\<open>newConnectionTimestamps\<close> and \<^verbatim>\<open>newProcessTimestamps\<close> map
  a key to the instant stored for it.
\<close>

record tracker =
  previousConnections :: "string set"
  previousProcesses :: "string set"
  newConnectionTimestamps :: "string \<rightharpoonup> int"
  newProcessTimestamps :: "string \<rightharpoonup> int"

definition initialTracker :: tracker where
  "initialTracker = \<lparr>previousConnections = {}, previousProcesses = {},
     newConnectionTimestamps = Map.empty, newProcessTimestamps = Map.empty\<rparr>"

text \<open>
  The stamping loop of \<^verbatim>\<open>monitor\<close>, over the keys of the current records:
  \<^verbatim>\<open>if (!previous.has(id)) timestamps.set(id, Date.now())\<close>. The clock is read anew
  for every record that is stamped: \<open>clock idx\<close> is what \<^verbatim>\<open>Date.now()\<close> returns when
  the loop is at the record of index \<open>idx\<close>.
\<close>

fun stampNew :: "string set \<Rightarrow> (nat \<Rightarrow> int) \<Rightarrow> nat \<Rightarrow> string list \<Rightarrow> (string \<rightharpoonup> int) \<Rightarrow> (string \<rightharpoonup> int)" where
  "stampNew previous clock idx [] timestamps = timestamps"
| "stampNew previous clock idx (k # ks) timestamps =
     stampNew previous clock (Suc idx) ks
       (if k \<in> previous then timestamps else timestamps(k \<mapsto> clock idx))"

text \<open>
  The expiry loop of \<^verbatim>\<open>monitor\<close>:
  \<^verbatim>\<open>if (now - timestamp > 30000) timestamps.delete(id)\<close> for every entry.
\<close>

definition sweep :: "int \<Rightarrow> (string \<rightharpoonup> int) \<Rightarrow> (string \<rightharpoonup> int)" where
  "sweep now timestamps =
     (\<lambda>k. case timestamps k of
             None \<Rightarrow> None
           | Some timestamp \<Rightarrow> if now - timestamp > 30000 then None else Some timestamp)"

text \<open>
  \<^verbatim>\<open>timestamps.has(id) && (now - timestamps.get(id)) < 30000\<close>, the annotation of
  \<^verbatim>\<open>displayConnections\<close> and \<^verbatim>\<open>displayProcesses\<close>.
\<close>

definition isNew :: "(string \<rightharpoonup> int) \<Rightarrow> int \<Rightarrow> string \<Rightarrow> bool" where
  "isNew timestamps now k =
     (case timestamps k of None \<Rightarrow> False | Some timestamp \<Rightarrow> now - timestamp < 30000)"

text \<open>
  What the display prints is kept as the records in their order, each with its
  annotation; an empty list prints the "none detected" line and annotates nothing.
\<close>

definition displayConnections :: "tracker \<Rightarrow> int \<Rightarrow> connection list \<Rightarrow> (connection \<times> bool) list" where
  "displayConnections tr now connections =
     map (\<lambda>conn. (conn, isNew (newConnectionTimestamps tr) now (conn_id conn))) connections"

definition displayProcesses :: "tracker \<Rightarrow> int \<Rightarrow> proc list \<Rightarrow> (proc \<times> bool) list" where
  "displayProcesses tr now processes =
     map (\<lambda>p. (p, isNew (newProcessTimestamps tr) now (proc_id p))) processes"

subsection \<open>monitor\<close>

record flags =
  connections :: bool
  processes :: bool

text \<open>
  What one cycle reads from outside: the result of \<^verbatim>\<open>executeCommand\<close> for each kind
  (\<open>Inl\<close> the error of a rejected promise, \<open>Inr\<close> the standard output), and the readings
  of \<^verbatim>\<open>Date.now()\<close>: in the two stamping loops (one reading for each index of the
  loop), before the expiry loops, and in the two displays.
\<close>

record world =
  connResult :: "string + string"
  procResult :: "string + string"
  tConnStamp :: "nat \<Rightarrow> int"
  tProcStamp :: "nat \<Rightarrow> int"
  tSweep :: int
  tConnDisplay :: int
  tProcDisplay :: int

text \<open>
  What one cycle shows: the two displays (\<open>None\<close> for a kind whose flag is off), or
  the message of the \<^verbatim>\<open>catch\<close> block, which prints nothing else.
\<close>

datatype outcome =
  Rendered "(connection \<times> bool) list option" "(proc \<times> bool) list option"
| Failed string

text \<open>The two \<^verbatim>\<open>if (flags. ...)\<close> blocks of the \<^verbatim>\<open>try\<close>; an \<open>Inl\<close> is the throw.\<close>

definition connectionsStep :: "osType \<Rightarrow> flags \<Rightarrow> world \<Rightarrow> tracker \<Rightarrow> string + (connection list \<times> tracker)" where
  "connectionsStep os fl w tr =
     (if connections fl then
        (case connResult w of
           Inl err \<Rightarrow> Inl err
         | Inr connOutput \<Rightarrow>
             (let conns = parseConnections connOutput os
              in Inr (conns,
                   tr\<lparr>newConnectionTimestamps :=
                        stampNew (previousConnections tr) (tConnStamp w) 0 (map conn_id conns)
                          (newConnectionTimestamps tr),
                      previousConnections := set (map conn_id conns)\<rparr>)))
      else Inr ([], tr))"

definition processesStep :: "osType \<Rightarrow> flags \<Rightarrow> world \<Rightarrow> tracker \<Rightarrow> string + (proc list \<times> tracker)" where
  "processesStep os fl w tr =
     (if processes fl then
        (case procResult w of
           Inl err \<Rightarrow> Inl err
         | Inr procOutput \<Rightarrow>
             (let procs = parseProcesses procOutput os
              in Inr (procs,
                   tr\<lparr>newProcessTimestamps :=
                        stampNew (previousProcesses tr) (tProcStamp w) 0 (map proc_id procs)
                          (newProcessTimestamps tr),
                      previousProcesses := set (map proc_id procs)\<rparr>)))
      else Inr ([], tr))"

definition sweepStep :: "world \<Rightarrow> tracker \<Rightarrow> tracker" where
  "sweepStep w tr =
     tr\<lparr>newConnectionTimestamps := sweep (tSweep w) (newConnectionTimestamps tr),
        newProcessTimestamps := sweep (tSweep w) (newProcessTimestamps tr)\<rparr>"

definition monitor :: "osType \<Rightarrow> flags \<Rightarrow> world \<Rightarrow> tracker \<Rightarrow> tracker \<times> outcome" where
  "monitor os fl w tr =
     (case connectionsStep os fl w tr of
        Inl err \<Rightarrow> (tr, Failed err)
      | Inr (conns, tr1) \<Rightarrow>
          (case processesStep os fl w tr1 of
             Inl err \<Rightarrow> (tr1, Failed err)
           | Inr (procs, tr2) \<Rightarrow>
               (let tr3 = sweepStep w tr2
                in (tr3,
                    Rendered
                      (if connections fl then Some (displayConnections tr3 (tConnDisplay w) conns)
                       else None)
                      (if processes fl then Some (displayProcesses tr3 (tProcDisplay w) procs)
                       else None)))))"

text \<open>
  The timer: one call of \<^verbatim>\<open>monitor\<close> per tick, each on the state the one before left.
  The outcomes are listed in the order of the ticks.
\<close>

fun monitorRun :: "osType \<Rightarrow> flags \<Rightarrow> world list \<Rightarrow> tracker \<Rightarrow> tracker \<times> outcome list" where
  "monitorRun os fl [] tr = (tr, [])"
| "monitorRun os fl (w # ws) tr =
     (case monitor os fl w tr of
        (tr1, out) \<Rightarrow> (case monitorRun os fl ws tr1 of (tr2, outs) \<Rightarrow> (tr2, out # outs)))"

subsection \<open>The two kinds of a cycle\<close>

text \<open>
  \<^verbatim>\<open>monitor\<close> runs the same code for connections and for processes, on the variables of
  the kind. The properties of the change tracker are stated once, for a kind: its flag,
  its two variables, the keys of the records its command gives in a cycle (none when the
  command fails), the clock readings of its stamping loop and of its display, and the
  pairs of key and annotation that its display shows.
\<close>

datatype kind = Connections | Processes

definition enabled :: "kind \<Rightarrow> flags \<Rightarrow> bool" where
  "enabled kd fl = (case kd of Connections \<Rightarrow> connections fl | Processes \<Rightarrow> processes fl)"

definition previousOf :: "kind \<Rightarrow> tracker \<Rightarrow> string set" where
  "previousOf kd tr =
     (case kd of Connections \<Rightarrow> previousConnections tr | Processes \<Rightarrow> previousProcesses tr)"

definition timestampsOf :: "kind \<Rightarrow> tracker \<Rightarrow> (string \<rightharpoonup> int)" where
  "timestampsOf kd tr =
     (case kd of Connections \<Rightarrow> newConnectionTimestamps tr | Processes \<Rightarrow> newProcessTimestamps tr)"

definition pollKeys :: "kind \<Rightarrow> osType \<Rightarrow> world \<Rightarrow> string list" where
  "pollKeys kd os w =
     (case kd of
        Connections \<Rightarrow>
          (case connResult w of Inl err \<Rightarrow> [] | Inr out \<Rightarrow> map conn_id (parseConnections out os))
      | Processes \<Rightarrow>
          (case procResult w of Inl err \<Rightarrow> [] | Inr out \<Rightarrow> map proc_id (parseProcesses out os)))"

definition stampInstant :: "kind \<Rightarrow> world \<Rightarrow> nat \<Rightarrow> int" where
  "stampInstant kd w = (case kd of Connections \<Rightarrow> tConnStamp w | Processes \<Rightarrow> tProcStamp w)"

definition displayInstant :: "kind \<Rightarrow> world \<Rightarrow> int" where
  "displayInstant kd w = (case kd of Connections \<Rightarrow> tConnDisplay w | Processes \<Rightarrow> tProcDisplay w)"

definition annotations :: "kind \<Rightarrow> outcome \<Rightarrow> (string \<times> bool) list" where
  "annotations kd out =
     (case out of
        Failed err \<Rightarrow> []
      | Rendered shownConns shownProcs \<Rightarrow>
          (case kd of
             Connections \<Rightarrow>
               (case shownConns of None \<Rightarrow> [] | Some cs \<Rightarrow> map (\<lambda>(c, new). (conn_id c, new)) cs)
           | Processes \<Rightarrow>
               (case shownProcs of None \<Rightarrow> [] | Some ps \<Rightarrow> map (\<lambda>(p, new). (proc_id p, new)) ps)))"

text \<open>Every command that the flags ask for returns its output.\<close>

definition commandsSucceed :: "flags \<Rightarrow> world \<Rightarrow> bool" where
  "commandsSucceed fl w =
     ((if connections fl then (case connResult w of Inl err \<Rightarrow> False | Inr out \<Rightarrow> True) else True)
      \<and> (if processes fl then (case procResult w of Inl err \<Rightarrow> False | Inr out \<Rightarrow> True) else True))"

text \<open>
  The variables of a kind hold a key as one stamped at the instant \<open>t0\<close> and present in
  every poll since: the key is in the previous set, and its entry is the one stamped at
  \<open>t0\<close>, or it has been swept, which is possible only when the instant \<open>now\<close> is not
  within the window of \<open>t0\<close>.
\<close>

definition trackedSince :: "kind \<Rightarrow> string \<Rightarrow> int \<Rightarrow> int \<Rightarrow> tracker \<Rightarrow> bool" where
  "trackedSince kd k t0 now tr =
     (k \<in> previousOf kd tr
      \<and> (timestampsOf kd tr k = Some t0
          \<or> (timestampsOf kd tr k = None \<and> \<not> now - t0 < 30000)))"

text \<open>
  A cycle in which both commands return the given outputs and every clock reading is the
  instant \<open>t\<close>; the sample cycles below are of this form.
\<close>

definition pollAt :: "int \<Rightarrow> string \<Rightarrow> string \<Rightarrow> world" where
  "pollAt t connOutput procOutput =
     \<lparr>connResult = Inr connOutput, procResult = Inr procOutput,
      tConnStamp = (\<lambda>idx. t), tProcStamp = (\<lambda>idx. t), tSweep = t,
      tConnDisplay = t, tProcDisplay = t\<rparr>"

subsection \<open>The unspecified endpoint of the specification\<close>

text \<open>
  The specification excludes a remote endpoint that is "the unspecified address/port
  (textual equivalents of any address / any port)", the endpoint of a listening socket.
  This definition follows those words and not the tests of the loops: an endpoint is
  unspecified when it is an any-address (\<^verbatim>\<open>0.0.0.0\<close>, \<^verbatim>\<open>*\<close>, \<^verbatim>\<open>::\<close> or
  \<^verbatim>\<open>[::]\<close>), a colon and an any-port (\<^verbatim>\<open>0\<close> or \<^verbatim>\<open>*\<close>), or when it is a lone
  \<^verbatim>\<open>*\<close>. These are the forms in which \<^verbatim>\<open>netstat\<close> and \<^verbatim>\<open>ss\<close> print the remote
  side of a socket that has no peer.
\<close>

definition anyAddresses :: "string list" where
  "anyAddresses = [''0.0.0.0'', ''*'', ''::'', ''[::]'']"

definition anyPorts :: "string list" where
  "anyPorts = [''0'', ''*'']"

definition unspecifiedEndpoint :: "string \<Rightarrow> bool" where
  "unspecifiedEndpoint r =
     (r = ''*'' \<or> r \<in> set (concat (map (\<lambda>a. map (\<lambda>p. a @ '':'' @ p) anyPorts) anyAddresses)))"

section \<open>Lemmas on the library operations and the loops\<close>

lemma splitAcc_no_sep:
  "sep \<notin> set h \<Longrightarrow> splitAcc sep cur (h @ sep # rest) = (cur @ h) # splitAcc sep [] rest"
  by (induction h arbitrary: cur) auto

lemma outputLines_header:
  assumes "trim header \<noteq> []" and "CHR 0x0A \<notin> set header"
  shows "outputLines (header @ CHR 0x0A # rest) = header # outputLines rest"
  using assms by (simp add: outputLines_def splitLines_def splitAcc_no_sep)

lemma pushEach_append: "pushEach body xs idx acc = acc @ pushEach body xs idx []"
proof (induction xs arbitrary: idx acc)
  case Nil
  then show ?case by simp
next
  case (Cons x xs)
  show ?case
  proof (cases "body x idx")
    case None
    then show ?thesis using Cons.IH [of "Suc idx" acc] by simp
  next
    case (Some r)
    then show ?thesis
      using Cons.IH [of "Suc idx" "acc @ [r]"] Cons.IH [of "Suc idx" "[r]"] by simp
  qed
qed

lemma pushEach_enumerate:
  "pushEach body xs idx [] = List.map_filter (\<lambda>(i, x). body x i) (enumerate idx xs)"
proof (induction xs arbitrary: idx)
  case Nil
  then show ?case by simp
next
  case (Cons x xs)
  show ?case
  proof (cases "body x idx")
    case None
    then show ?thesis using Cons.IH [of "Suc idx"] by simp
  next
    case (Some r)
    then show ?thesis
      using Cons.IH [of "Suc idx"] pushEach_append [of body xs "Suc idx" "[r]"]
      by simp
  qed
qed

lemma pushEach_set_acc:
  "r \<in> set (pushEach body xs idx acc) \<Longrightarrow>
     r \<in> set acc \<or> (\<exists>x i. x \<in> set xs \<and> body x i = Some r)"
proof (induction xs arbitrary: idx acc)
  case Nil
  then show ?case by simp
next
  case (Cons x xs)
  from Cons.prems
  have "r \<in> set (case body x idx of None \<Rightarrow> acc | Some r \<Rightarrow> acc @ [r])
      \<or> (\<exists>y i. y \<in> set xs \<and> body y i = Some r)"
    using Cons.IH by simp
  then show ?case
    by (cases "body x idx") auto
qed

lemma pushEach_set:
  "r \<in> set (pushEach body xs idx []) \<Longrightarrow> \<exists>x i. x \<in> set xs \<and> body x i = Some r"
  using pushEach_set_acc [of r body xs idx "[]"] by simp

section \<open>The parsers on the lines of the specification\<close>

text \<open>
  C1. The macOS loop on the line
  \<^verbatim>\<open>chrome 12345 user 50u IPv6 0xabc 0t0 TCP [::1]:54321->example.com:443 (ESTABLISHED)\<close>
  gives one record with protocol TCP, local \<^verbatim>\<open>[::1]:54321\<close>, remote
  \<^verbatim>\<open>example.com:443\<close> and process \<^verbatim>\<open>chrome (12345)\<close>. Its family is \<^verbatim>\<open>parts[3]\<close>,
  the fourth token \<^verbatim>\<open>50u\<close> (the FD column of lsof), and not the TYPE column
  \<^verbatim>\<open>IPv6\<close>, which is the fifth token \<^verbatim>\<open>parts[4]\<close>.
\<close>

theorem macConnLine_family_is_fd_column:
  "parseConnections
     ''chrome 12345 user 50u IPv6 0xabc 0t0 TCP [::1]:54321->example.com:443 (ESTABLISHED)'' Mac
   = [\<lparr>protocol = ''TCP'', local = ''[::1]:54321'', remote = ''example.com:443'',
        state = ''ESTABLISHED'', process = ''chrome (12345)'', family = Some ''50u'',
        conn_id = ''TCP|[::1]:54321|example.com:443|ESTABLISHED|chrome|12345''\<rparr>]"
  by code_simp

lemma chrome_line_record:
  "pushEach windowsProcLine
     [''\"chrome.exe\",\"1234\",\"Console\",\"1\",\"50,000 K\",\"N/A\",\"user1\",\"2\"''] (Suc 0) []
   = [\<lparr>name = ''chrome.exe'', pid = ''1234'', user = ''user1'', cpu = ''2'',
        mem = ''50,000 K'', proc_id = ''chrome.exe|1234''\<rparr>]"
  by code_simp

lemma chrome_line_fields:
  "scanFields (''\"chrome.exe\",\"1234\",\"Console\",\"1\",\"50,000 K\",\"N/A\",\"user1\",\"2\"'' @ '','')
     [] False []
   = [''chrome.exe'', ''1234'', ''Console'', ''1'', ''50,000 K'', ''N/A'', ''user1'', ''2'']"
  by code_simp

lemma chrome_line_only:
  "outputLines ''\"chrome.exe\",\"1234\",\"Console\",\"1\",\"50,000 K\",\"N/A\",\"user1\",\"2\"''
   = [''\"chrome.exe\",\"1234\",\"Console\",\"1\",\"50,000 K\",\"N/A\",\"user1\",\"2\"'']"
  by code_simp

text \<open>
  C9. After any header line (not blank, on one line), the Windows process loop turns the
  line \<^verbatim>\<open>"chrome.exe","1234","Console","1","50,000 K","N/A","user1","2"\<close> into one
  record with name \<^verbatim>\<open>chrome.exe\<close> and pid \<^verbatim>\<open>1234\<close>. The scanner gives eight
  fields: the comma inside \<^verbatim>\<open>"50,000 K"\<close> does not split the field, and the comma
  appended to the line pushes the last field \<^verbatim>\<open>2\<close>.
\<close>

theorem windowsProcLine_chrome:
  assumes "trim header \<noteq> []" and "CHR 0x0A \<notin> set header"
  shows "parseProcesses
      (header @ CHR 0x0A #
        ''\"chrome.exe\",\"1234\",\"Console\",\"1\",\"50,000 K\",\"N/A\",\"user1\",\"2\"'') Windows
     = [\<lparr>name = ''chrome.exe'', pid = ''1234'', user = ''user1'', cpu = ''2'',
          mem = ''50,000 K'', proc_id = ''chrome.exe|1234''\<rparr>]
   \<and> scanFields
       (''\"chrome.exe\",\"1234\",\"Console\",\"1\",\"50,000 K\",\"N/A\",\"user1\",\"2\"'' @ '','')
       [] False []
     = [''chrome.exe'', ''1234'', ''Console'', ''1'', ''50,000 K'', ''N/A'', ''user1'', ''2'']"
proof -
  have "windowsProcLine header 0 = None"
    by (simp add: windowsProcLine_def)
  then show ?thesis
    using outputLines_header [OF assms] chrome_line_only chrome_line_record chrome_line_fields
    by (simp add: parseProcesses_def)
qed

text \<open>The same under the header that \<^verbatim>\<open>tasklist /v /fo csv\<close> prints.\<close>

theorem windowsProcLine_chrome_witness:
  "parseProcesses
      (''\"Image Name\",\"PID\",\"Session Name\",\"Session#\",\"Mem Usage\",\"Status\",\"User Name\",\"CPU Time\",\"Window Title\"''
        @ CHR 0x0A #
        ''\"chrome.exe\",\"1234\",\"Console\",\"1\",\"50,000 K\",\"N/A\",\"user1\",\"2\"'') Windows
     = [\<lparr>name = ''chrome.exe'', pid = ''1234'', user = ''user1'', cpu = ''2'',
          mem = ''50,000 K'', proc_id = ''chrome.exe|1234''\<rparr>]"
proof -
  have a: "trim ''\"Image Name\",\"PID\",\"Session Name\",\"Session#\",\"Mem Usage\",\"Status\",\"User Name\",\"CPU Time\",\"Window Title\"'' \<noteq> []"
    by code_simp
  have b: "CHR 0x0A \<notin> set ''\"Image Name\",\"PID\",\"Session Name\",\"Session#\",\"Mem Usage\",\"Status\",\"User Name\",\"CPU Time\",\"Window Title\"''"
    by simp
  show ?thesis
    using windowsProcLine_chrome [OF a b] by simp
qed

section \<open>The Windows process scanner drops every double quote\<close>

lemma set_trim: "set (trim s) \<subseteq> set s"
proof -
  have "set (trim s) \<subseteq> set (rev (dropWhile isSpace s))"
    unfolding trim_def using set_dropWhileD [of _ isSpace "rev (dropWhile isSpace s)"] by auto
  also have "\<dots> \<subseteq> set s"
    using set_dropWhileD [of _ isSpace s] by auto
  finally show ?thesis .
qed

lemma scanFields_no_quote:
  assumes "dquote \<notin> set current" and "\<forall>f\<in>set fs. dquote \<notin> set f"
  shows "\<forall>f\<in>set (scanFields s current inQuotes fs). dquote \<notin> set f"
  using assms
proof (induction s arbitrary: current inQuotes fs)
  case Nil
  then show ?case by simp
next
  case (Cons char rest)
  have t: "dquote \<notin> set (trim current)"
    using Cons.prems(1) set_trim [of current] by auto
  show ?case
  proof (cases "char = dquote")
    case True
    then show ?thesis
      using Cons.IH [OF Cons.prems] by simp
  next
    case False
    have push: "\<forall>f\<in>set (fs @ [trim current]). dquote \<notin> set f"
      using Cons.prems(2) t by simp
    have keep: "dquote \<notin> set (current @ [char])"
      using Cons.prems(1) False by simp
    have e: "dquote \<notin> set ([]::string)" by simp
    show ?thesis
      using False Cons.IH [OF e push] Cons.IH [OF keep Cons.prems(2)] by simp
  qed
qed

lemma stripLeadingQuote_id: "dquote \<notin> set s \<Longrightarrow> stripLeadingQuote s = s"
  by (cases s) auto

lemma stripTrailingQuote_id: "dquote \<notin> set s \<Longrightarrow> stripTrailingQuote s = s"
  by (simp add: stripTrailingQuote_def stripLeadingQuote_id)

lemma orElse_no_quote:
  "\<forall>f\<in>set fs. dquote \<notin> set f \<Longrightarrow> dquote \<notin> set d \<Longrightarrow> dquote \<notin> set (orElse fs i d)"
  by (simp add: orElse_def)

lemma windowsProcLine_no_quote:
  assumes "windowsProcLine line idx = Some r"
  shows "dquote \<notin> set (name r) \<and> dquote \<notin> set (pid r) \<and> dquote \<notin> set (user r)
    \<and> dquote \<notin> set (cpu r) \<and> dquote \<notin> set (mem r) \<and> dquote \<notin> set (proc_id r)"
proof -
  let ?fs = "scanFields (line @ '','') [] False []"
  have q: "\<forall>f\<in>set ?fs. dquote \<notin> set f"
    using scanFields_no_quote [of "[]" "[]" "line @ '',''" False] by simp
  have na: "dquote \<notin> set ''N/A''" and bar: "dquote \<notin> set ''|''"
    by (simp_all add: dquote_def)
  have len: "2 \<le> length ?fs"
    using assms by (simp add: windowsProcLine_def Let_def split: if_splits)
  then have l0: "0 < length ?fs" and l1: "1 < length ?fs"
    by linarith+
  have f0: "dquote \<notin> set (?fs ! 0)" and f1: "dquote \<notin> set (?fs ! 1)"
    using q nth_mem [OF l0] nth_mem [OF l1] by blast+
  have r: "r = \<lparr>name = ?fs ! 0, pid = ?fs ! 1, user = orElse ?fs 6 ''N/A'',
      cpu = orElse ?fs 7 ''N/A'', mem = orElse ?fs 4 ''N/A'', proc_id = (?fs ! 0) @ ''|'' @ (?fs ! 1)\<rparr>"
    using assms f0 f1
    by (simp add: windowsProcLine_def Let_def stripLeadingQuote_id stripTrailingQuote_id
        split: if_splits)
  show ?thesis
    using f0 f1 bar orElse_no_quote [OF q na] by (subst r, simp)+
qed

text \<open>
  C10. No field of a record of the Windows process loop (name, pid, user, cpu, mem, and
  the key) holds a double quote: the scanner consumes every double quote without
  appending it, so no scanned field holds one, and stripping a leading and a trailing
  double quote from a scanned field leaves it as it is.
\<close>

theorem windowsProcLine_fields_have_no_quote:
  "(\<forall>r\<in>set (parseProcesses output Windows).
       dquote \<notin> set (name r) \<and> dquote \<notin> set (pid r) \<and> dquote \<notin> set (user r)
     \<and> dquote \<notin> set (cpu r) \<and> dquote \<notin> set (mem r) \<and> dquote \<notin> set (proc_id r))
   \<and> (\<forall>f\<in>set (scanFields (line @ '','') [] False []).
       dquote \<notin> set f \<and> stripTrailingQuote (stripLeadingQuote f) = f)"
proof (rule conjI)
  show "\<forall>r\<in>set (parseProcesses output Windows).
       dquote \<notin> set (name r) \<and> dquote \<notin> set (pid r) \<and> dquote \<notin> set (user r)
     \<and> dquote \<notin> set (cpu r) \<and> dquote \<notin> set (mem r) \<and> dquote \<notin> set (proc_id r)"
  proof (rule ballI)
    fix r
    assume r: "r \<in> set (parseProcesses output Windows)"
    have "parseProcesses output Windows = take 50 (pushEach windowsProcLine (outputLines output) 0 [])"
      by (simp add: parseProcesses_def)
    then have "set (parseProcesses output Windows)
        \<subseteq> set (pushEach windowsProcLine (outputLines output) 0 [])"
      by (simp add: set_take_subset)
    with r have "r \<in> set (pushEach windowsProcLine (outputLines output) 0 [])"
      by (rule subsetD [rotated])
    then obtain l i where "windowsProcLine l i = Some r"
      using pushEach_set [of r windowsProcLine "outputLines output" 0] by blast
    then show "dquote \<notin> set (name r) \<and> dquote \<notin> set (pid r) \<and> dquote \<notin> set (user r)
       \<and> dquote \<notin> set (cpu r) \<and> dquote \<notin> set (mem r) \<and> dquote \<notin> set (proc_id r)"
      by (rule windowsProcLine_no_quote)
  qed
next
  have q: "\<forall>f\<in>set (scanFields (line @ '','') [] False []). dquote \<notin> set f"
    using scanFields_no_quote [of "[]" "[]" "line @ '',''" False] by simp
  show "\<forall>f\<in>set (scanFields (line @ '','') [] False []).
       dquote \<notin> set f \<and> stripTrailingQuote (stripLeadingQuote f) = f"
  proof (rule ballI)
    fix f
    assume "f \<in> set (scanFields (line @ '','') [] False [])"
    with q have "dquote \<notin> set f" by (rule bspec)
    then show "dquote \<notin> set f \<and> stripTrailingQuote (stripLeadingQuote f) = f"
      by (simp add: stripLeadingQuote_id stripTrailingQuote_id)
  qed
qed

text \<open>
  A line with a doubled quote inside a field: both quotes are consumed and the name is
  \<^verbatim>\<open>ab\<close>.
\<close>

theorem windowsProcLine_fields_have_no_quote_witness:
  "parseProcesses (''h'' @ CHR 0x0A # ''\"a\"\"b\",\"7\"'') Windows
     = [\<lparr>name = ''ab'', pid = ''7'', user = ''N/A'', cpu = ''N/A'', mem = ''N/A'',
         proc_id = ''ab|7''\<rparr>]
   \<and> dquote \<notin> set ''ab'' \<and> dquote \<notin> set ''7'' \<and> dquote \<notin> set ''N/A'' \<and> dquote \<notin> set ''ab|7''
   \<and> scanFields (''\"a\"\"b\",\"7\"'' @ '','') [] False [] = [''ab'', ''7'']
   \<and> stripTrailingQuote (stripLeadingQuote ''ab'') = ''ab''"
proof -
  have p: "parseProcesses (''h'' @ CHR 0x0A # ''\"a\"\"b\",\"7\"'') Windows
     = [\<lparr>name = ''ab'', pid = ''7'', user = ''N/A'', cpu = ''N/A'', mem = ''N/A'',
         proc_id = ''ab|7''\<rparr>]"
    by code_simp
  have s: "scanFields (''\"a\"\"b\",\"7\"'' @ '','') [] False [] = [''ab'', ''7'']"
    by code_simp
  note inst = windowsProcLine_fields_have_no_quote
      [of "''h'' @ CHR 0x0A # ''\"a\"\"b\",\"7\"''" "''\"a\"\"b\",\"7\"''"]
  have "dquote \<notin> set ''ab'' \<and> dquote \<notin> set ''7'' \<and> dquote \<notin> set ''N/A'' \<and> dquote \<notin> set ''ab|7''
     \<and> stripTrailingQuote (stripLeadingQuote ''ab'') = ''ab''"
    using inst unfolding p s by simp
  then show ?thesis
    using p s by blast
qed

section \<open>The process parser keeps the first fifty records\<close>

text \<open>
  C8. On every output and every platform \<^verbatim>\<open>parseProcesses\<close> returns at most 50
  records, and they are a prefix of the records of the lines in the order of the lines
  (the loop body applied to every line that is not blank, with its index): the first 50
  of them, never sorted.
\<close>

theorem parseProcesses_first_50_in_order:
  "length (parseProcesses output os) \<le> 50
   \<and> prefix (parseProcesses output os)
       (List.map_filter
          (\<lambda>(idx, line). if os = Windows then windowsProcLine line idx else unixProcLine line idx)
          (enumerate 0 (outputLines output)))
   \<and> parseProcesses output os =
       take 50 (List.map_filter
          (\<lambda>(idx, line). if os = Windows then windowsProcLine line idx else unixProcLine line idx)
          (enumerate 0 (outputLines output)))"
proof -
  have e: "parseProcesses output os =
       take 50 (List.map_filter
          (\<lambda>(idx, line). if os = Windows then windowsProcLine line idx else unixProcLine line idx)
          (enumerate 0 (outputLines output)))"
    by (cases "os = Windows") (simp_all add: parseProcesses_def Let_def pushEach_enumerate)
  show ?thesis
    by (subst e, subst e, subst e) (simp add: take_is_prefix)
qed

section \<open>The Windows connection loop\<close>

text \<open>
  The pieces of a trimmed line that is not blank are never empty, so \<^verbatim>\<open>parts[i]\<close> is
  falsy only when it is undefined.
\<close>

lemma splitWsAcc_empty_token:
  "[] \<in> set (splitWsAcc cur inSep s) \<Longrightarrow>
     (cur = [] \<and> (s = [] \<or> (\<not> inSep \<and> isSpace (hd s)))) \<or> (s \<noteq> [] \<and> isSpace (last s))"
proof (induction s arbitrary: cur inSep)
  case Nil
  then show ?case by simp
next
  case (Cons c cs)
  show ?case
  proof (cases "isSpace c")
    case False
    with Cons.prems have "[] \<in> set (splitWsAcc (cur @ [c]) False cs)"
      by simp
    from Cons.IH [OF this] show ?thesis
      by auto
  next
    case True
    show ?thesis
    proof (cases inSep)
      case True
      with \<open>isSpace c\<close> Cons.prems have "[] \<in> set (splitWsAcc cur True cs)"
        by simp
      from Cons.IH [OF this] \<open>isSpace c\<close> show ?thesis
        by auto
    next
      case False
      with \<open>isSpace c\<close> Cons.prems have "cur = [] \<or> [] \<in> set (splitWsAcc [] True cs)"
        by auto
      then show ?thesis
      proof
        assume "cur = []"
        with False \<open>isSpace c\<close> show ?thesis by simp
      next
        assume "[] \<in> set (splitWsAcc [] True cs)"
        from Cons.IH [OF this] \<open>isSpace c\<close> show ?thesis
          by auto
      qed
    qed
  qed
qed

lemma last_dropWhile: "dropWhile P xs \<noteq> [] \<Longrightarrow> last (dropWhile P xs) = last xs"
  by (induction xs) (auto split: if_splits)

lemma trim_last: "trim s \<noteq> [] \<Longrightarrow> \<not> isSpace (last (trim s))"
proof -
  assume "trim s \<noteq> []"
  then have n: "dropWhile isSpace (rev (dropWhile isSpace s)) \<noteq> []"
    by (simp add: trim_def)
  have "last (trim s) = hd (dropWhile isSpace (rev (dropWhile isSpace s)))"
    using n by (simp add: trim_def last_rev)
  then show ?thesis
    using hd_dropWhile [OF n] by simp
qed

lemma trim_hd: "trim s \<noteq> [] \<Longrightarrow> \<not> isSpace (hd (trim s))"
proof -
  assume "trim s \<noteq> []"
  then have n: "dropWhile isSpace (rev (dropWhile isSpace s)) \<noteq> []"
    by (simp add: trim_def)
  have u: "dropWhile isSpace s \<noteq> []"
  proof
    assume "dropWhile isSpace s = []"
    with n show False by simp
  qed
  have "hd (trim s) = last (dropWhile isSpace (rev (dropWhile isSpace s)))"
    using n by (simp add: trim_def hd_rev)
  also have "\<dots> = last (rev (dropWhile isSpace s))"
    using n by (rule last_dropWhile)
  also have "\<dots> = hd (dropWhile isSpace s)"
    using u by (simp add: last_rev)
  finally show ?thesis
    using hd_dropWhile [OF u] by simp
qed

lemma splitWs_trim_tokens: "trim s \<noteq> [] \<Longrightarrow> [] \<notin> set (splitWs (trim s))"
proof
  assume n: "trim s \<noteq> []" and "[] \<in> set (splitWs (trim s))"
  then have "[] \<in> set (splitWsAcc [] False (trim s))"
    by (simp add: splitWs_def)
  from splitWsAcc_empty_token [OF this] n trim_hd [OF n] trim_last [OF n]
  show False by auto
qed

lemma splitWs_blank: "trim s = [] \<Longrightarrow> splitWs (trim s) = [[]]"
  by (simp add: splitWs_def)

lemma splitWs_tokens:
  "2 \<le> length (splitWs (trim s)) \<Longrightarrow> [] \<notin> set (splitWs (trim s))"
  using splitWs_trim_tokens [of s] splitWs_blank [of s] by (cases "trim s = []") auto


lemma pushEach_const_body:
  "pushEach (\<lambda>line idx. body line) xs idx [] = List.map_filter body xs"
proof (induction xs arbitrary: idx)
  case Nil
  then show ?case by simp
next
  case (Cons x xs)
  show ?case
  proof (cases "body x")
    case None
    then show ?thesis using Cons.IH [of "Suc idx"] by simp
  next
    case (Some r)
    then show ?thesis
      using Cons.IH [of "Suc idx"] pushEach_append [of "\<lambda>line idx. body line" xs "Suc idx" "[r]"]
      by simp
  qed
qed

lemma windowsConnLine_three_parts:
  assumes "splitWs (trim line) = p0 # p1 # p2 # rest"
  shows "windowsConnLine line =
     (if (p0 = ''TCP'' \<or> p0 = ''UDP'') \<and> p2 \<noteq> ''0.0.0.0:0'' \<and> p2 \<noteq> ''*:*'' then
        Some \<lparr>protocol = p0, local = p1, remote = p2,
          state = (case rest of [] \<Rightarrow> ''N/A'' | p3 # _ \<Rightarrow> p3),
          process = ''Unknown'', family = None,
          conn_id = p0 @ ''|'' @ p1 @ ''|'' @ p2 @ ''|'' @ (case rest of [] \<Rightarrow> ''N/A'' | p3 # _ \<Rightarrow> p3)\<rparr>
      else None)"
proof -
  have "2 \<le> length (splitWs (trim line))"
    using assms by simp
  then have "[] \<notin> set (splitWs (trim line))"
    by (rule splitWs_tokens)
  then have p2: "p2 \<noteq> []" and rest: "[] \<notin> set rest"
    using assms by auto
  have st: "(case rest of [] \<Rightarrow> ''N/A'' | p3 # _ \<Rightarrow> if p3 = [] then ''N/A'' else p3)
      = (case rest of [] \<Rightarrow> ''N/A'' | p3 # _ \<Rightarrow> p3)"
    using rest by (cases rest) auto
  show ?thesis
    unfolding windowsConnLine_def assms list.case Let_def st using p2 by simp
qed

lemma windowsConnLine_few_parts:
  assumes "length (splitWs (trim line)) < 3"
  shows "windowsConnLine line = None"
proof -
  obtain ps where ps: "splitWs (trim line) = ps" by simp
  with assms have "length ps < 3" by simp
  then have "(case ps of p0 # p1 # p2 # rest \<Rightarrow> Some () | _ \<Rightarrow> None) = None"
    by (cases ps; cases "tl ps"; cases "tl (tl ps)") auto
  then show ?thesis
    unfolding windowsConnLine_def ps
    by (cases ps; cases "tl ps"; cases "tl (tl ps)") auto
qed

lemma unspecifiedEndpoint_tested:
  "unspecifiedEndpoint ''0.0.0.0:0''" "unspecifiedEndpoint ''*:*''"
  by (simp_all add: unspecifiedEndpoint_def anyAddresses_def anyPorts_def)

text \<open>
  C6. The Windows loop pushes a record for a line only when the first token of the
  trimmed line is \<^verbatim>\<open>TCP\<close> or \<^verbatim>\<open>UDP\<close> and the line has at least three tokens, and
  never when the third token (the remote endpoint) is \<^verbatim>\<open>0.0.0.0:0\<close> or \<^verbatim>\<open>*:*\<close>. It
  pushes a record whenever the first token is \<^verbatim>\<open>TCP\<close> or \<^verbatim>\<open>UDP\<close>, the line has at
  least three tokens and the third token is not an unspecified endpoint. The record has
  the first three tokens as protocol, local and remote; its state is the fourth token
  when the line has one and \<^verbatim>\<open>N/A\<close> when it has not; its process is \<^verbatim>\<open>Unknown\<close>.
  The parser returns what the loop body gives on the lines that are not blank, in their
  order. Nothing is said of a line whose remote endpoint is unspecified in another form
  than the two that never get a record.
\<close>

theorem windowsConnLine_emits:
  "(windowsConnLine line \<noteq> None \<longrightarrow>
      (let parts = splitWs (trim line) in
         (parts ! 0 = ''TCP'' \<or> parts ! 0 = ''UDP'') \<and> 3 \<le> length parts
         \<and> parts ! 2 \<noteq> ''0.0.0.0:0'' \<and> parts ! 2 \<noteq> ''*:*''))
   \<and> ((let parts = splitWs (trim line) in
         (parts ! 0 = ''TCP'' \<or> parts ! 0 = ''UDP'') \<and> 3 \<le> length parts
         \<and> \<not> unspecifiedEndpoint (parts ! 2)) \<longrightarrow>
       windowsConnLine line \<noteq> None)
   \<and> (\<forall>r. windowsConnLine line = Some r \<longrightarrow>
        (let parts = splitWs (trim line) in
           protocol r = parts ! 0 \<and> local r = parts ! 1 \<and> remote r = parts ! 2
           \<and> state r = (if 4 \<le> length parts then parts ! 3 else ''N/A'')
           \<and> process r = ''Unknown''))
   \<and> parseConnections output Windows = List.map_filter windowsConnLine (outputLines output)"
proof -
  have whole: "parseConnections output Windows = List.map_filter windowsConnLine (outputLines output)"
    by (simp add: parseConnections_def pushEach_const_body)
  show ?thesis
  proof (cases "length (splitWs (trim line)) < 3")
    case True
    then show ?thesis
      using windowsConnLine_few_parts [OF True] whole by (simp add: Let_def)
  next
    case False
    then obtain p0 p1 p2 rest where ps: "splitWs (trim line) = p0 # p1 # p2 # rest"
      by (cases "splitWs (trim line)"; cases "tl (splitWs (trim line))";
          cases "tl (tl (splitWs (trim line)))") auto
    have st: "(if 4 \<le> length (p0 # p1 # p2 # rest) then (p0 # p1 # p2 # rest) ! 3 else ''N/A'')
        = (case rest of [] \<Rightarrow> ''N/A'' | p3 # _ \<Rightarrow> p3)"
      by (cases rest) auto
    have tested: "\<not> unspecifiedEndpoint p2 \<Longrightarrow> p2 \<noteq> ''0.0.0.0:0'' \<and> p2 \<noteq> ''*:*''"
      using unspecifiedEndpoint_tested by auto
    show ?thesis
      unfolding windowsConnLine_three_parts [OF ps] ps Let_def st using whole tested
      by auto
  qed
qed

text \<open>
  A line of three tokens, with white space around them, whose remote endpoint is not
  unspecified: it gets a record, and the state is \<^verbatim>\<open>N/A\<close>.
\<close>

theorem windowsConnLine_emits_witness:
  "windowsConnLine ''  TCP    10.0.0.1:5    10.0.0.2:80  '' =
     Some \<lparr>protocol = ''TCP'', local = ''10.0.0.1:5'', remote = ''10.0.0.2:80'',
       state = ''N/A'', process = ''Unknown'', family = None,
       conn_id = ''TCP|10.0.0.1:5|10.0.0.2:80|N/A''\<rparr>
   \<and> splitWs (trim ''  TCP    10.0.0.1:5    10.0.0.2:80  '') = [''TCP'', ''10.0.0.1:5'', ''10.0.0.2:80'']
   \<and> \<not> unspecifiedEndpoint ''10.0.0.2:80''
   \<and> windowsConnLine ''  TCP    10.0.0.1:5    10.0.0.2:80  '' \<noteq> None
   \<and> state \<lparr>protocol = ''TCP'', local = ''10.0.0.1:5'', remote = ''10.0.0.2:80'',
       state = ''N/A'', process = ''Unknown'', family = None,
       conn_id = ''TCP|10.0.0.1:5|10.0.0.2:80|N/A''\<rparr>
     = (if 4 \<le> length [''TCP'', ''10.0.0.1:5'', ''10.0.0.2:80'']
        then [''TCP'', ''10.0.0.1:5'', ''10.0.0.2:80''] ! 3 else ''N/A'')"
proof -
  have p: "splitWs (trim ''  TCP    10.0.0.1:5    10.0.0.2:80  '') = [''TCP'', ''10.0.0.1:5'', ''10.0.0.2:80'']"
    by code_simp
  have e: "windowsConnLine ''  TCP    10.0.0.1:5    10.0.0.2:80  '' =
     Some \<lparr>protocol = ''TCP'', local = ''10.0.0.1:5'', remote = ''10.0.0.2:80'',
       state = ''N/A'', process = ''Unknown'', family = None,
       conn_id = ''TCP|10.0.0.1:5|10.0.0.2:80|N/A''\<rparr>"
    by code_simp
  have u: "\<not> unspecifiedEndpoint ''10.0.0.2:80''"
    by (simp add: unspecifiedEndpoint_def anyAddresses_def anyPorts_def)
  note inst = windowsConnLine_emits [of "''  TCP    10.0.0.1:5    10.0.0.2:80  ''" "[]"]
  have pushed: "windowsConnLine ''  TCP    10.0.0.1:5    10.0.0.2:80  '' \<noteq> None"
    using inst u unfolding p Let_def by simp
  have "\<forall>r. windowsConnLine ''  TCP    10.0.0.1:5    10.0.0.2:80  '' = Some r \<longrightarrow>
      state r = (if 4 \<le> length [''TCP'', ''10.0.0.1:5'', ''10.0.0.2:80'']
        then [''TCP'', ''10.0.0.1:5'', ''10.0.0.2:80''] ! 3 else ''N/A'')"
    using inst unfolding p Let_def by blast
  with e p u pushed show ?thesis
    by blast
qed

text \<open>
  A line of three tokens gets a record: a fourth token is not needed, against "at least
  4 tokens".
\<close>

theorem windowsConnLine_three_tokens_counterexample:
  "parseConnections ''TCP 10.0.0.1:5 10.0.0.2:80'' Windows =
     [\<lparr>protocol = ''TCP'', local = ''10.0.0.1:5'', remote = ''10.0.0.2:80'',
        state = ''N/A'', process = ''Unknown'', family = None,
        conn_id = ''TCP|10.0.0.1:5|10.0.0.2:80|N/A''\<rparr>]
   \<and> length (splitWs (trim ''TCP 10.0.0.1:5 10.0.0.2:80'')) = 3"
  by code_simp


section \<open>Unspecified remote endpoints\<close>

text \<open>
  C7. The loops do not keep every unspecified remote endpoint out of the output. The
  Windows loop tests for \<^verbatim>\<open>0.0.0.0:0\<close> and \<^verbatim>\<open>*:*\<close> only: on the line that
  \<^verbatim>\<open>netstat -ano\<close> prints for a socket listening on IPv6 it pushes a record whose
  remote endpoint is \<^verbatim>\<open>[::]:0\<close>. The fallback loop tests for \<^verbatim>\<open>*\<close> and for
  \<^verbatim>\<open>*:*\<close> inside the endpoint only: on the line that \<^verbatim>\<open>ss -tunap\<close> prints for a
  listening socket it pushes a record whose remote endpoint is \<^verbatim>\<open>0.0.0.0:*\<close>. Both
  endpoints are unspecified.
\<close>

theorem parseConnections_keeps_listening_sockets:
  "parseConnections ''  TCP    [::]:135    [::]:0    LISTENING    888'' Windows
     = [\<lparr>protocol = ''TCP'', local = ''[::]:135'', remote = ''[::]:0'',
          state = ''LISTENING'', process = ''Unknown'', family = None,
          conn_id = ''TCP|[::]:135|[::]:0|LISTENING''\<rparr>]
   \<and> unspecifiedEndpoint ''[::]:0''
   \<and> parseConnections
       (''Netid State Recv-Q Send-Q Local Address:Port Peer Address:Port Process'' @ CHR 0x0A #
        ''tcp LISTEN 0 128 0.0.0.0:22 0.0.0.0:* users:((\"sshd\",pid=812,fd=3))'') Unix
     = [\<lparr>protocol = ''TCP'', local = ''0.0.0.0:22'', remote = ''0.0.0.0:*'',
          state = ''LISTEN'', process = ''users:((\"sshd\",pid=812,fd=3))'', family = None,
          conn_id = ''TCP|0.0.0.0:22|0.0.0.0:*|LISTEN''\<rparr>]
   \<and> unspecifiedEndpoint ''0.0.0.0:*''"
  by code_simp

section \<open>The change tracker\<close>

lemma stampNew_keep:
  "k \<in> previous \<or> k \<notin> set ks \<Longrightarrow> stampNew previous clock idx ks ts k = ts k"
  by (induction ks arbitrary: idx ts) auto

lemma stampNew_new:
  assumes "k \<notin> previous" and "k \<in> set ks"
  shows "\<exists>i<length ks. ks ! i = k \<and> stampNew previous clock idx ks ts k = Some (clock (idx + i))"
  using assms
proof (induction ks arbitrary: idx ts)
  case Nil
  then show ?case by simp
next
  case (Cons k0 ks)
  let ?ts = "if k0 \<in> previous then ts else ts(k0 \<mapsto> clock idx)"
  show ?case
  proof (cases "k \<in> set ks")
    case True
    from Cons.IH [OF Cons.prems(1) True, of "Suc idx" ?ts]
    obtain i where i: "i < length ks" "ks ! i = k"
      "stampNew previous clock (Suc idx) ks ?ts k = Some (clock (Suc idx + i))"
      by blast
    have "Suc i < length (k0 # ks) \<and> (k0 # ks) ! Suc i = k
        \<and> stampNew previous clock idx (k0 # ks) ts k = Some (clock (idx + Suc i))"
      using i by simp
    then show ?thesis by blast
  next
    case False
    with Cons.prems have k0: "k0 = k" by simp
    have "stampNew previous clock idx (k0 # ks) ts k = ?ts k"
      using False by (simp add: stampNew_keep)
    then have "0 < length (k0 # ks) \<and> (k0 # ks) ! 0 = k
        \<and> stampNew previous clock idx (k0 # ks) ts k = Some (clock (idx + 0))"
      using k0 Cons.prems(1) by simp
    then show ?thesis by blast
  qed
qed

lemma sweep_apply:
  "sweep now ts k = (case ts k of None \<Rightarrow> None | Some t \<Rightarrow> if now - t > 30000 then None else Some t)"
  by (simp add: sweep_def)

lemma connectionsStep_on:
  assumes "connections fl" and "connResult w = Inr out"
  shows "connectionsStep os fl w tr =
     Inr (parseConnections out os,
       tr\<lparr>newConnectionTimestamps :=
            stampNew (previousConnections tr) (tConnStamp w) 0 (map conn_id (parseConnections out os))
              (newConnectionTimestamps tr),
          previousConnections := set (map conn_id (parseConnections out os))\<rparr>)"
  using assms by (simp add: connectionsStep_def Let_def)

lemma connectionsStep_off: "\<not> connections fl \<Longrightarrow> connectionsStep os fl w tr = Inr ([], tr)"
  by (simp add: connectionsStep_def)

lemma connectionsStep_fail:
  "connections fl \<Longrightarrow> connResult w = Inl err \<Longrightarrow> connectionsStep os fl w tr = Inl err"
  by (simp add: connectionsStep_def)

lemma processesStep_on:
  assumes "processes fl" and "procResult w = Inr out"
  shows "processesStep os fl w tr =
     Inr (parseProcesses out os,
       tr\<lparr>newProcessTimestamps :=
            stampNew (previousProcesses tr) (tProcStamp w) 0 (map proc_id (parseProcesses out os))
              (newProcessTimestamps tr),
          previousProcesses := set (map proc_id (parseProcesses out os))\<rparr>)"
  using assms by (simp add: processesStep_def Let_def)

lemma processesStep_off: "\<not> processes fl \<Longrightarrow> processesStep os fl w tr = Inr ([], tr)"
  by (simp add: processesStep_def)

lemma processesStep_fail:
  "processes fl \<Longrightarrow> procResult w = Inl err \<Longrightarrow> processesStep os fl w tr = Inl err"
  by (simp add: processesStep_def)

text \<open>What a cycle whose commands succeed does to the variables of an enabled kind.\<close>

lemma monitor_success:
  assumes "commandsSucceed fl w" and "enabled kd fl"
  shows "timestampsOf kd (fst (monitor os fl w tr)) =
           sweep (tSweep w)
             (stampNew (previousOf kd tr) (stampInstant kd w) 0 (pollKeys kd os w)
               (timestampsOf kd tr))
       \<and> previousOf kd (fst (monitor os fl w tr)) = set (pollKeys kd os w)
       \<and> annotations kd (snd (monitor os fl w tr)) =
           map (\<lambda>k. (k, isNew (timestampsOf kd (fst (monitor os fl w tr))) (displayInstant kd w) k))
             (pollKeys kd os w)"
proof (cases "connections fl")
  case c: True
  then obtain cout where cout: "connResult w = Inr cout"
    using assms(1) by (cases "connResult w") (simp_all add: commandsSucceed_def)
  note cs = connectionsStep_on [OF c cout]
  show ?thesis
  proof (cases "processes fl")
    case p: True
    then obtain pout where pout: "procResult w = Inr pout"
      using assms(1) by (cases "procResult w") (simp_all add: commandsSucceed_def)
    note ps = processesStep_on [OF p pout]
    show ?thesis
      using c p cout pout
      by (cases kd)
        (simp_all add: monitor_def cs ps sweepStep_def Let_def timestampsOf_def previousOf_def
          annotations_def pollKeys_def stampInstant_def displayInstant_def displayConnections_def
          displayProcesses_def comp_def)
  next
    case p: False
    then have kd: "kd = Connections"
      using assms(2) by (cases kd) (simp_all add: enabled_def)
    show ?thesis
      using c p cout
      by (simp add: kd monitor_def cs processesStep_off sweepStep_def Let_def timestampsOf_def
          previousOf_def annotations_def pollKeys_def stampInstant_def displayInstant_def
          displayConnections_def comp_def)
  qed
next
  case c: False
  then have kd: "kd = Processes" and p: "processes fl"
    using assms(2) by (cases kd; simp add: enabled_def)+
  then obtain pout where pout: "procResult w = Inr pout"
    using assms(1) by (cases "procResult w") (simp_all add: commandsSucceed_def)
  note ps = processesStep_on [OF p pout]
  show ?thesis
    using c p pout
    by (simp add: kd monitor_def connectionsStep_off ps sweepStep_def Let_def timestampsOf_def
        previousOf_def annotations_def pollKeys_def stampInstant_def displayInstant_def
        displayProcesses_def comp_def)
qed


lemma cycle_first:
  assumes "commandsSucceed fl w" and "enabled kd fl"
    and "k \<notin> previousOf kd tr" and "k \<in> set (pollKeys kd os w)" and "tSweep w \<le> now"
    and "\<forall>i<length (pollKeys kd os w). pollKeys kd os w ! i = k \<longrightarrow> stampInstant kd w i = t0"
  shows "trackedSince kd k t0 now (fst (monitor os fl w tr))"
proof -
  note m = monitor_success [OF assms(1,2), of os tr]
  obtain i where i: "i < length (pollKeys kd os w)" "pollKeys kd os w ! i = k"
    "stampNew (previousOf kd tr) (stampInstant kd w) 0 (pollKeys kd os w) (timestampsOf kd tr) k
      = Some (stampInstant kd w (0 + i))"
    using stampNew_new [OF assms(3,4)] by blast
  have "stampInstant kd w i = t0"
    using assms(6) i(1,2) by blast
  with i(3) have "stampNew (previousOf kd tr) (stampInstant kd w) 0 (pollKeys kd os w)
      (timestampsOf kd tr) k = Some t0"
    by simp
  then have "timestampsOf kd (fst (monitor os fl w tr)) k =
      (if tSweep w - t0 > 30000 then None else Some t0)"
    using m by (simp add: sweep_apply)
  then show ?thesis
    using m assms(4,5) by (auto simp: trackedSince_def)
qed

lemma cycle_next:
  assumes "commandsSucceed fl w" and "enabled kd fl"
    and "trackedSince kd k t0 now tr" and "k \<in> set (pollKeys kd os w)" and "tSweep w \<le> now"
  shows "trackedSince kd k t0 now (fst (monitor os fl w tr))"
proof -
  note m = monitor_success [OF assms(1,2), of os tr]
  have "k \<in> previousOf kd tr"
    using assms(3) by (simp add: trackedSince_def)
  then have "stampNew (previousOf kd tr) (stampInstant kd w) 0 (pollKeys kd os w)
      (timestampsOf kd tr) k = timestampsOf kd tr k"
    by (simp add: stampNew_keep)
  then have s: "timestampsOf kd (fst (monitor os fl w tr)) k =
      (case timestampsOf kd tr k of None \<Rightarrow> None
       | Some t \<Rightarrow> if tSweep w - t > 30000 then None else Some t)"
    using m by (simp add: sweep_apply)
  have p: "k \<in> previousOf kd (fst (monitor os fl w tr))"
    using m assms(4) by simp
  from assms(3) have "timestampsOf kd tr k = Some t0
      \<or> (timestampsOf kd tr k = None \<and> \<not> now - t0 < 30000)"
    by (simp add: trackedSince_def)
  then show ?thesis
  proof
    assume "timestampsOf kd tr k = Some t0"
    with s p assms(5) show ?thesis
      by (auto simp: trackedSince_def)
  next
    assume "timestampsOf kd tr k = None \<and> \<not> now - t0 < 30000"
    with s p show ?thesis
      by (simp add: trackedSince_def)
  qed
qed

lemma annotation_of_tracked:
  assumes "commandsSucceed fl w" and "enabled kd fl"
    and "trackedSince kd k t0 now (fst (monitor os fl w tr))"
    and "k \<in> set (pollKeys kd os w)" and "displayInstant kd w = now"
  shows "k \<in> fst ` set (annotations kd (snd (monitor os fl w tr)))
     \<and> (\<forall>(k', new)\<in>set (annotations kd (snd (monitor os fl w tr))).
          k' = k \<longrightarrow> new = (now - t0 < 30000))"
proof -
  note m = monitor_success [OF assms(1,2), of os tr]
  have new: "isNew (timestampsOf kd (fst (monitor os fl w tr))) now k = (now - t0 < 30000)"
    using assms(3) by (auto simp: trackedSince_def isNew_def)
  have a: "annotations kd (snd (monitor os fl w tr)) =
      map (\<lambda>k. (k, isNew (timestampsOf kd (fst (monitor os fl w tr))) now k)) (pollKeys kd os w)"
    using m assms(5) by simp
  show ?thesis
    unfolding a using assms(4) new by (auto simp: image_iff)
qed

lemma snd_monitorRun_Cons:
  "snd (monitorRun os fl (w # ws) tr) =
     snd (monitor os fl w tr) # snd (monitorRun os fl ws (fst (monitor os fl w tr)))"
  by (simp split: prod.splits)

lemma length_monitorRun: "length (snd (monitorRun os fl ws tr)) = length ws"
proof (induction ws arbitrary: tr)
  case Nil
  then show ?case by simp
next
  case (Cons w ws)
  show ?case
    unfolding snd_monitorRun_Cons using Cons.IH by simp
qed

lemma last_monitorRun_Cons:
  "last (snd (monitorRun os fl (w # ws) tr)) =
     (if ws = [] then snd (monitor os fl w tr)
      else last (snd (monitorRun os fl ws (fst (monitor os fl w tr)))))"
proof (cases "ws = []")
  case True
  then show ?thesis by (simp split: prod.splits)
next
  case False
  then have "snd (monitorRun os fl ws (fst (monitor os fl w tr))) \<noteq> []"
    using length_monitorRun [of os fl ws "fst (monitor os fl w tr)"] by auto
  with False show ?thesis
    by (simp only: snd_monitorRun_Cons last.simps if_False)
qed

lemma run_tracked:
  assumes "ws \<noteq> []" and "enabled kd fl" and "trackedSince kd k t0 now tr"
    and "\<forall>w\<in>set ws. commandsSucceed fl w"
    and "\<forall>w\<in>set ws. k \<in> set (pollKeys kd os w)"
    and "\<forall>w\<in>set ws. tSweep w \<le> now"
    and "displayInstant kd (last ws) = now"
  shows "k \<in> fst ` set (annotations kd (last (snd (monitorRun os fl ws tr))))
     \<and> (\<forall>(k', new)\<in>set (annotations kd (last (snd (monitorRun os fl ws tr)))).
          k' = k \<longrightarrow> new = (now - t0 < 30000))"
  using assms
proof (induction ws arbitrary: tr)
  case Nil
  then show ?case by simp
next
  case (Cons w ws)
  have ok: "commandsSucceed fl w" and key: "k \<in> set (pollKeys kd os w)" and sw: "tSweep w \<le> now"
    using Cons.prems(4,5,6) by simp_all
  have tr1: "trackedSince kd k t0 now (fst (monitor os fl w tr))"
    using cycle_next [OF ok Cons.prems(2) Cons.prems(3) key sw] .
  show ?case
  proof (cases "ws = []")
    case True
    then have "displayInstant kd w = now"
      using Cons.prems(7) by simp
    have e: "last (snd (monitorRun os fl (w # ws) tr)) = snd (monitor os fl w tr)"
      using True by (subst last_monitorRun_Cons) simp
    show ?thesis
      unfolding e using annotation_of_tracked [OF ok Cons.prems(2) tr1 key \<open>displayInstant kd w = now\<close>] .
  next
    case False
    have d: "displayInstant kd (last ws) = now"
      using Cons.prems(7) False by simp
    have oks: "\<forall>w\<in>set ws. commandsSucceed fl w" and keys: "\<forall>w\<in>set ws. k \<in> set (pollKeys kd os w)"
      and sws: "\<forall>w\<in>set ws. tSweep w \<le> now"
      using Cons.prems(4,5,6) by simp_all
    have e: "last (snd (monitorRun os fl (w # ws) tr)) =
        last (snd (monitorRun os fl ws (fst (monitor os fl w tr))))"
      using False by (subst last_monitorRun_Cons) simp
    show ?thesis
      unfolding e using Cons.IH [OF False Cons.prems(2) tr1 oks keys sws d] .
  qed
qed

text \<open>
  C4. Take a run of cycles whose commands all succeed, for a kind whose flag is on, and
  a key that is not in the previous set before the first cycle and is the key of a
  record in every cycle of the run. Let \<open>t0\<close> be the instant the first cycle reads when
  it stamps the key, and let no expiry sweep of the run read a later instant than the
  display of the last cycle (as when each cycle has one instant and the clock does not
  go back). Then the last cycle shows the key, and every annotation it shows for the key
  is \<open>isNew = true\<close> when the display is less than 30000 ms after \<open>t0\<close>, and
  \<open>isNew = false\<close> when it is 30000 ms or more after \<open>t0\<close>.
\<close>

theorem isNew_for_thirty_seconds:
  assumes "enabled kd fl"
    and "\<forall>w\<in>set (w0 # ws). commandsSucceed fl w"
    and "k \<notin> previousOf kd tr"
    and "\<forall>w\<in>set (w0 # ws). k \<in> set (pollKeys kd os w)"
    and "\<forall>i<length (pollKeys kd os w0). pollKeys kd os w0 ! i = k \<longrightarrow> stampInstant kd w0 i = t0"
    and "\<forall>w\<in>set (w0 # ws). tSweep w \<le> displayInstant kd (last (w0 # ws))"
  shows "k \<in> fst ` set (annotations kd (last (snd (monitorRun os fl (w0 # ws) tr))))
     \<and> (\<forall>(k', new)\<in>set (annotations kd (last (snd (monitorRun os fl (w0 # ws) tr)))).
          k' = k \<longrightarrow> new = (displayInstant kd (last (w0 # ws)) - t0 < 30000))"
proof -
  let ?now = "displayInstant kd (last (w0 # ws))"
  have ok: "commandsSucceed fl w0" and key: "k \<in> set (pollKeys kd os w0)" and sw: "tSweep w0 \<le> ?now"
    using assms(2,4,6) by simp_all
  have tr1: "trackedSince kd k t0 ?now (fst (monitor os fl w0 tr))"
    using cycle_first [OF ok assms(1) assms(3) key sw assms(5)] .
  show ?thesis
  proof (cases "ws = []")
    case True
    then have d: "displayInstant kd w0 = ?now"
      by simp
    have e: "last (snd (monitorRun os fl (w0 # ws) tr)) = snd (monitor os fl w0 tr)"
      using True by (subst last_monitorRun_Cons) simp
    show ?thesis
      unfolding e using annotation_of_tracked [OF ok assms(1) tr1 key d] .
  next
    case False
    have oks: "\<forall>w\<in>set ws. commandsSucceed fl w" and keys: "\<forall>w\<in>set ws. k \<in> set (pollKeys kd os w)"
      and sws: "\<forall>w\<in>set ws. tSweep w \<le> ?now"
      using assms(2,4,6) by simp_all
    have d: "displayInstant kd (last ws) = ?now"
      using False by simp
    have e: "last (snd (monitorRun os fl (w0 # ws) tr)) =
        last (snd (monitorRun os fl ws (fst (monitor os fl w0 tr))))"
      using False by (subst last_monitorRun_Cons) simp
    show ?thesis
      unfolding e using run_tracked [OF False assms(1) tr1 oks keys sws d] .
  qed
qed

subsection \<open>Sample cycles\<close>

lemma sample_conn_line:
  "parseConnections ''TCP 10.0.0.1:5 10.0.0.2:80'' Windows =
     [\<lparr>protocol = ''TCP'', local = ''10.0.0.1:5'', remote = ''10.0.0.2:80'',
        state = ''N/A'', process = ''Unknown'', family = None,
        conn_id = ''TCP|10.0.0.1:5|10.0.0.2:80|N/A''\<rparr>]"
  by code_simp

lemma pollKeys_pollAt:
  "pollKeys Connections os (pollAt t connOutput procOutput) = map conn_id (parseConnections connOutput os)"
  by (simp add: pollKeys_def pollAt_def)

lemma commandsSucceed_pollAt: "commandsSucceed fl (pollAt t connOutput procOutput)"
  by (simp add: commandsSucceed_def pollAt_def)

lemma instants_pollAt:
  "tSweep (pollAt t c p) = t" "displayInstant kd (pollAt t c p) = t" "stampInstant kd (pollAt t c p) i = t"
  by (cases kd; simp add: pollAt_def displayInstant_def stampInstant_def)+

text \<open>
  Three cycles on the same connection, all instants of a cycle equal: displayed 29999 ms
  after the first cycle the record is new, displayed 30000 ms after it is not.
\<close>

theorem isNew_for_thirty_seconds_witness:
  "''TCP|10.0.0.1:5|10.0.0.2:80|N/A'' \<in> fst ` set (annotations Connections
     (last (snd (monitorRun Windows \<lparr>connections = True, processes = False\<rparr>
       (pollAt 0 ''TCP 10.0.0.1:5 10.0.0.2:80'' [] # [pollAt 10000 ''TCP 10.0.0.1:5 10.0.0.2:80'' [],
        pollAt 29999 ''TCP 10.0.0.1:5 10.0.0.2:80'' []]) initialTracker))))
   \<and> annotations Connections (last (snd (monitorRun Windows \<lparr>connections = True, processes = False\<rparr>
       [pollAt 0 ''TCP 10.0.0.1:5 10.0.0.2:80'' [], pollAt 10000 ''TCP 10.0.0.1:5 10.0.0.2:80'' [],
        pollAt 29999 ''TCP 10.0.0.1:5 10.0.0.2:80'' []] initialTracker)))
     = [(''TCP|10.0.0.1:5|10.0.0.2:80|N/A'', True)]
   \<and> ''TCP|10.0.0.1:5|10.0.0.2:80|N/A'' \<in> fst ` set (annotations Connections
     (last (snd (monitorRun Windows \<lparr>connections = True, processes = False\<rparr>
       (pollAt 0 ''TCP 10.0.0.1:5 10.0.0.2:80'' [] # [pollAt 10000 ''TCP 10.0.0.1:5 10.0.0.2:80'' [],
        pollAt 30000 ''TCP 10.0.0.1:5 10.0.0.2:80'' []]) initialTracker))))
   \<and> annotations Connections (last (snd (monitorRun Windows \<lparr>connections = True, processes = False\<rparr>
       [pollAt 0 ''TCP 10.0.0.1:5 10.0.0.2:80'' [], pollAt 10000 ''TCP 10.0.0.1:5 10.0.0.2:80'' [],
        pollAt 30000 ''TCP 10.0.0.1:5 10.0.0.2:80'' []] initialTracker)))
     = [(''TCP|10.0.0.1:5|10.0.0.2:80|N/A'', False)]"
proof -
  let ?fl = "\<lparr>connections = True, processes = False\<rparr>"
  let ?L = "''TCP 10.0.0.1:5 10.0.0.2:80''"
  let ?K = "''TCP|10.0.0.1:5|10.0.0.2:80|N/A''"
  have en: "enabled Connections ?fl"
    by (simp add: enabled_def)
  have fresh: "?K \<notin> previousOf Connections initialTracker"
    by (simp add: previousOf_def initialTracker_def)
  have ok: "\<forall>w\<in>set (pollAt 0 ?L [] # [pollAt 10000 ?L [], pollAt t ?L []]). commandsSucceed ?fl w" for t
    by (simp add: commandsSucceed_pollAt)
  have keys: "\<forall>w\<in>set (pollAt 0 ?L [] # [pollAt 10000 ?L [], pollAt t ?L []]).
      ?K \<in> set (pollKeys Connections Windows w)" for t
    by (simp add: pollKeys_pollAt sample_conn_line)
  have sw1: "\<forall>w\<in>set (pollAt 0 ?L [] # [pollAt 10000 ?L [], pollAt 29999 ?L []]).
      tSweep w \<le> displayInstant Connections (last (pollAt 0 ?L [] # [pollAt 10000 ?L [], pollAt 29999 ?L []]))"
    by (simp add: instants_pollAt)
  have sw2: "\<forall>w\<in>set (pollAt 0 ?L [] # [pollAt 10000 ?L [], pollAt 30000 ?L []]).
      tSweep w \<le> displayInstant Connections (last (pollAt 0 ?L [] # [pollAt 10000 ?L [], pollAt 30000 ?L []]))"
    by (simp add: instants_pollAt)
  have t0: "\<forall>i<length (pollKeys Connections Windows (pollAt 0 ?L [])).
      pollKeys Connections Windows (pollAt 0 ?L []) ! i = ?K \<longrightarrow>
      stampInstant Connections (pollAt 0 ?L []) i = 0"
    by (simp add: instants_pollAt)
  note young = isNew_for_thirty_seconds [OF en ok fresh keys t0 sw1]
  note old = isNew_for_thirty_seconds [OF en ok fresh keys t0 sw2]
  have a: "annotations Connections (last (snd (monitorRun Windows ?fl
       [pollAt 0 ?L [], pollAt 10000 ?L [], pollAt 29999 ?L []] initialTracker)))
     = [(?K, True)]"
    by code_simp
  have b: "annotations Connections (last (snd (monitorRun Windows ?fl
       [pollAt 0 ?L [], pollAt 10000 ?L [], pollAt 30000 ?L []] initialTracker)))
     = [(?K, False)]"
    by code_simp
  from young have y: "?K \<in> fst ` set (annotations Connections
     (last (snd (monitorRun Windows ?fl
       (pollAt 0 ?L [] # [pollAt 10000 ?L [], pollAt 29999 ?L []]) initialTracker))))"
    by (rule conjunct1)
  from old have z: "?K \<in> fst ` set (annotations Connections
     (last (snd (monitorRun Windows ?fl
       (pollAt 0 ?L [] # [pollAt 10000 ?L [], pollAt 30000 ?L []]) initialTracker))))"
    by (rule conjunct1)
  show ?thesis
    by (rule conjI [OF y conjI [OF a conjI [OF z b]]])
qed


subsection \<open>The expiry loops\<close>

lemma monitor_rendered_sweeps:
  assumes "monitor os fl w tr = (tr', Rendered shownConns shownProcs)"
  shows "\<exists>tr2. tr' = sweepStep w tr2"
proof (cases "connectionsStep os fl w tr")
  case (Inl err)
  with assms show ?thesis by (simp add: monitor_def)
next
  case (Inr a)
  obtain conns tr1 where a: "a = (conns, tr1)" by (cases a)
  show ?thesis
  proof (cases "processesStep os fl w tr1")
    case (Inl err)
    with assms Inr a show ?thesis by (simp add: monitor_def)
  next
    case b: (Inr b)
    obtain procs tr2 where "b = (procs, tr2)" by (cases b)
    with assms Inr a b have "tr' = sweepStep w tr2"
      by (simp add: monitor_def Let_def)
    then show ?thesis ..
  qed
qed

lemma timestampsOf_sweepStep:
  "timestampsOf kd (sweepStep w tr) = sweep (tSweep w) (timestampsOf kd tr)"
  by (cases kd) (simp_all add: timestampsOf_def sweepStep_def)

text \<open>
  C5. When a cycle gets to its expiry loops (it is not cut by a failing command, so it
  renders), every entry left in the timestamps of either kind is at most 30000 ms older
  than the instant the loops read, whether or not its key is in the current poll.
\<close>

theorem sweep_leaves_no_expired_entry:
  assumes "monitor os fl w tr = (tr', Rendered shownConns shownProcs)"
    and "timestampsOf kd tr' k = Some t"
  shows "tSweep w - t \<le> 30000"
proof -
  obtain tr2 where "tr' = sweepStep w tr2"
    using monitor_rendered_sweeps [OF assms(1)] ..
  with assms(2) have "sweep (tSweep w) (timestampsOf kd tr2) k = Some t"
    by (simp add: timestampsOf_sweepStep)
  then show ?thesis
    by (simp add: sweep_apply split: option.splits if_splits)
qed

text \<open>
  A connection seen at 0 and another seen at 25000; a cycle at 40000 finds no
  connection. The first entry is swept, the second stays although its key is not in the
  current poll, and it is 15000 ms old.
\<close>

theorem sweep_leaves_no_expired_entry_witness:
  "snd (monitor Windows \<lparr>connections = True, processes = False\<rparr> (pollAt 40000 [] [])
      (fst (monitorRun Windows \<lparr>connections = True, processes = False\<rparr>
        [pollAt 0 ''TCP 10.0.0.1:5 10.0.0.2:80'' [],
         pollAt 25000 ''TCP 10.0.0.1:6 10.0.0.3:443 ESTABLISHED 9'' []] initialTracker)))
     = Rendered (Some []) None
   \<and> timestampsOf Connections
       (fst (monitor Windows \<lparr>connections = True, processes = False\<rparr> (pollAt 40000 [] [])
         (fst (monitorRun Windows \<lparr>connections = True, processes = False\<rparr>
           [pollAt 0 ''TCP 10.0.0.1:5 10.0.0.2:80'' [],
            pollAt 25000 ''TCP 10.0.0.1:6 10.0.0.3:443 ESTABLISHED 9'' []] initialTracker))))
       ''TCP|10.0.0.1:6|10.0.0.3:443|ESTABLISHED'' = Some 25000
   \<and> timestampsOf Connections
       (fst (monitor Windows \<lparr>connections = True, processes = False\<rparr> (pollAt 40000 [] [])
         (fst (monitorRun Windows \<lparr>connections = True, processes = False\<rparr>
           [pollAt 0 ''TCP 10.0.0.1:5 10.0.0.2:80'' [],
            pollAt 25000 ''TCP 10.0.0.1:6 10.0.0.3:443 ESTABLISHED 9'' []] initialTracker))))
       ''TCP|10.0.0.1:5|10.0.0.2:80|N/A'' = None
   \<and> tSweep (pollAt 40000 [] []) - 25000 \<le> 30000"
proof -
  let ?fl = "\<lparr>connections = True, processes = False\<rparr>"
  let ?tr = "fst (monitorRun Windows ?fl
        [pollAt 0 ''TCP 10.0.0.1:5 10.0.0.2:80'' [],
         pollAt 25000 ''TCP 10.0.0.1:6 10.0.0.3:443 ESTABLISHED 9'' []] initialTracker)"
  have out: "snd (monitor Windows ?fl (pollAt 40000 [] []) ?tr) = Rendered (Some []) None"
    by code_simp
  have kept: "timestampsOf Connections (fst (monitor Windows ?fl (pollAt 40000 [] []) ?tr))
       ''TCP|10.0.0.1:6|10.0.0.3:443|ESTABLISHED'' = Some 25000"
    by code_simp
  have swept: "timestampsOf Connections (fst (monitor Windows ?fl (pollAt 40000 [] []) ?tr))
       ''TCP|10.0.0.1:5|10.0.0.2:80|N/A'' = None"
    by code_simp
  have m: "monitor Windows ?fl (pollAt 40000 [] []) ?tr
      = (fst (monitor Windows ?fl (pollAt 40000 [] []) ?tr), Rendered (Some []) None)"
    using out by (metis prod.collapse)
  note age = sweep_leaves_no_expired_entry [OF m kept]
  show ?thesis
    by (rule conjI [OF out conjI [OF kept conjI [OF swept age]]])
qed


subsection \<open>The stamping loops\<close>

text \<open>
  C3. In each poll, the stamping loop of a kind sets the entry of a key exactly when the
  key is the key of a current record and is not in the previous set: the entry becomes
  the instant read at one of the records with that key. The loop leaves every other
  entry as it was, and it has no test for an entry that the key already has: that entry
  is overwritten.
\<close>

theorem stamping_overwrites_entries:
  "(connections fl \<and> connectionsStep os fl w tr = Inr (conns, tr1) \<longrightarrow>
      (if k \<in> set (map conn_id conns) \<and> k \<notin> previousConnections tr
       then \<exists>i<length conns. conn_id (conns ! i) = k
              \<and> newConnectionTimestamps tr1 k = Some (tConnStamp w i)
       else newConnectionTimestamps tr1 k = newConnectionTimestamps tr k))
   \<and> (processes fl \<and> processesStep os fl w tr = Inr (procs, tr2) \<longrightarrow>
      (if k \<in> set (map proc_id procs) \<and> k \<notin> previousProcesses tr
       then \<exists>i<length procs. proc_id (procs ! i) = k
              \<and> newProcessTimestamps tr2 k = Some (tProcStamp w i)
       else newProcessTimestamps tr2 k = newProcessTimestamps tr k))"
proof (intro conjI impI)
  assume a: "connections fl \<and> connectionsStep os fl w tr = Inr (conns, tr1)"
  then obtain out where out: "connResult w = Inr out"
    by (cases "connResult w") (auto simp: connectionsStep_def)
  from a have tr1: "newConnectionTimestamps tr1 =
      stampNew (previousConnections tr) (tConnStamp w) 0 (map conn_id conns)
        (newConnectionTimestamps tr)"
    using connectionsStep_on [of fl w out os tr] out by auto
  show "if k \<in> set (map conn_id conns) \<and> k \<notin> previousConnections tr
       then \<exists>i<length conns. conn_id (conns ! i) = k
              \<and> newConnectionTimestamps tr1 k = Some (tConnStamp w i)
       else newConnectionTimestamps tr1 k = newConnectionTimestamps tr k"
  proof (cases "k \<in> set (map conn_id conns) \<and> k \<notin> previousConnections tr")
    case True
    then obtain i where "i < length (map conn_id conns)" "map conn_id conns ! i = k"
      "stampNew (previousConnections tr) (tConnStamp w) 0 (map conn_id conns)
        (newConnectionTimestamps tr) k = Some (tConnStamp w (0 + i))"
      using stampNew_new [of k "previousConnections tr" "map conn_id conns"] by blast
    then have "i < length conns \<and> conn_id (conns ! i) = k
        \<and> newConnectionTimestamps tr1 k = Some (tConnStamp w i)"
      by (simp add: tr1)
    with True show ?thesis by auto
  next
    case False
    then have "newConnectionTimestamps tr1 k = newConnectionTimestamps tr k"
      unfolding tr1 by (intro stampNew_keep) blast
    with False show ?thesis by auto
  qed
next
  assume a: "processes fl \<and> processesStep os fl w tr = Inr (procs, tr2)"
  then obtain out where out: "procResult w = Inr out"
    by (cases "procResult w") (auto simp: processesStep_def)
  from a have tr2: "newProcessTimestamps tr2 =
      stampNew (previousProcesses tr) (tProcStamp w) 0 (map proc_id procs)
        (newProcessTimestamps tr)"
    using processesStep_on [of fl w out os tr] out by auto
  show "if k \<in> set (map proc_id procs) \<and> k \<notin> previousProcesses tr
       then \<exists>i<length procs. proc_id (procs ! i) = k
              \<and> newProcessTimestamps tr2 k = Some (tProcStamp w i)
       else newProcessTimestamps tr2 k = newProcessTimestamps tr k"
  proof (cases "k \<in> set (map proc_id procs) \<and> k \<notin> previousProcesses tr")
    case True
    then obtain i where "i < length (map proc_id procs)" "map proc_id procs ! i = k"
      "stampNew (previousProcesses tr) (tProcStamp w) 0 (map proc_id procs)
        (newProcessTimestamps tr) k = Some (tProcStamp w (0 + i))"
      using stampNew_new [of k "previousProcesses tr" "map proc_id procs"] by blast
    then have "i < length procs \<and> proc_id (procs ! i) = k
        \<and> newProcessTimestamps tr2 k = Some (tProcStamp w i)"
      by (simp add: tr2)
    with True show ?thesis by auto
  next
    case False
    then have "newProcessTimestamps tr2 k = newProcessTimestamps tr k"
      unfolding tr2 by (intro stampNew_keep) blast
    with False show ?thesis by auto
  qed
qed

text \<open>
  A key seen at 0, absent at 10000 and seen again at 20000, inside the window: the entry
  stamped 0 is still there after the second cycle, and the third cycle replaces it by
  20000, against "never overwritten or refreshed".
\<close>

theorem stamping_refreshes_reappearing_key_counterexample:
  "newConnectionTimestamps
     (fst (monitorRun Windows \<lparr>connections = True, processes = False\<rparr>
        [pollAt 0 ''TCP 10.0.0.1:5 10.0.0.2:80'' [], pollAt 10000 [] []] initialTracker))
     ''TCP|10.0.0.1:5|10.0.0.2:80|N/A'' = Some 0
   \<and> newConnectionTimestamps
     (fst (monitorRun Windows \<lparr>connections = True, processes = False\<rparr>
        [pollAt 0 ''TCP 10.0.0.1:5 10.0.0.2:80'' [], pollAt 10000 [] [],
         pollAt 20000 ''TCP 10.0.0.1:5 10.0.0.2:80'' []] initialTracker))
     ''TCP|10.0.0.1:5|10.0.0.2:80|N/A'' = Some 20000"
  by code_simp


text \<open>The connections block of that third cycle.\<close>

theorem stamping_overwrites_entries_witness:
  "\<exists>conns tr1.
     connectionsStep Windows \<lparr>connections = True, processes = True\<rparr>
       (pollAt 20000 ''TCP 10.0.0.1:5 10.0.0.2:80'' [])
       (fst (monitorRun Windows \<lparr>connections = True, processes = True\<rparr>
         [pollAt 0 ''TCP 10.0.0.1:5 10.0.0.2:80'' [], pollAt 10000 [] []] initialTracker))
       = Inr (conns, tr1)
     \<and> ''TCP|10.0.0.1:5|10.0.0.2:80|N/A'' \<in> set (map conn_id conns)
     \<and> ''TCP|10.0.0.1:5|10.0.0.2:80|N/A'' \<notin> previousConnections
         (fst (monitorRun Windows \<lparr>connections = True, processes = True\<rparr>
           [pollAt 0 ''TCP 10.0.0.1:5 10.0.0.2:80'' [], pollAt 10000 [] []] initialTracker))
     \<and> newConnectionTimestamps
         (fst (monitorRun Windows \<lparr>connections = True, processes = True\<rparr>
           [pollAt 0 ''TCP 10.0.0.1:5 10.0.0.2:80'' [], pollAt 10000 [] []] initialTracker))
         ''TCP|10.0.0.1:5|10.0.0.2:80|N/A'' = Some 0
     \<and> newConnectionTimestamps tr1 ''TCP|10.0.0.1:5|10.0.0.2:80|N/A'' = Some 20000"
proof -
  let ?fl = "\<lparr>connections = True, processes = True\<rparr>"
  let ?L = "''TCP 10.0.0.1:5 10.0.0.2:80''"
  let ?K = "''TCP|10.0.0.1:5|10.0.0.2:80|N/A''"
  let ?w = "pollAt 20000 ?L []"
  let ?tr = "fst (monitorRun Windows ?fl [pollAt 0 ?L [], pollAt 10000 [] []] initialTracker)"
  have fl: "connections ?fl" by simp
  have res: "connResult ?w = Inr ?L" by (simp add: pollAt_def)
  obtain conns tr1 where cs: "connectionsStep Windows ?fl ?w ?tr = Inr (conns, tr1)"
    and conns: "conns = parseConnections ?L Windows"
    using connectionsStep_on [OF fl res, of Windows ?tr] by simp
  have key: "?K \<in> set (map conn_id conns)"
    by (simp add: conns sample_conn_line)
  have prev: "?K \<notin> previousConnections ?tr"
    by code_simp
  have before: "newConnectionTimestamps ?tr ?K = Some 0"
    by code_simp
  have "if ?K \<in> set (map conn_id conns) \<and> ?K \<notin> previousConnections ?tr
      then \<exists>i<length conns. conn_id (conns ! i) = ?K
             \<and> newConnectionTimestamps tr1 ?K = Some (tConnStamp ?w i)
      else newConnectionTimestamps tr1 ?K = newConnectionTimestamps ?tr ?K"
    using stamping_overwrites_entries [of ?fl Windows ?w ?tr conns tr1 ?K] fl cs by blast
  then have "\<exists>i. newConnectionTimestamps tr1 ?K = Some (tConnStamp ?w i)"
    using key prev by auto
  then have after: "newConnectionTimestamps tr1 ?K = Some 20000"
    by (simp add: pollAt_def)
  show ?thesis
    using cs key prev before after by blast
qed

subsection \<open>A failing command\<close>

text \<open>
  C2. When the command of a kind fails, the cycle ends in the \<^verbatim>\<open>catch\<close> block: the
  message is logged, nothing is displayed for either kind, and the expiry loops do not
  run. If the connections command fails, the tracker is left as it was and the processes
  command is not run; if the processes command fails, the tracker is as the connections
  block left it. In both cases \<^verbatim>\<open>monitor\<close> returns.
\<close>

theorem monitor_failure_abandons_cycle:
  "(connections fl \<and> connResult w = Inl err \<longrightarrow> monitor os fl w tr = (tr, Failed err))
   \<and> (processes fl \<and> procResult w = Inl err \<and> connectionsStep os fl w tr = Inr (conns, tr1) \<longrightarrow>
        monitor os fl w tr = (tr1, Failed err))"
proof (intro conjI impI)
  assume "connections fl \<and> connResult w = Inl err"
  then have "connectionsStep os fl w tr = Inl err"
    by (simp add: connectionsStep_fail)
  then show "monitor os fl w tr = (tr, Failed err)"
    by (simp add: monitor_def)
next
  assume a: "processes fl \<and> procResult w = Inl err \<and> connectionsStep os fl w tr = Inr (conns, tr1)"
  then have "processesStep os fl w tr1 = Inl err"
    by (simp add: processesStep_fail)
  with a show "monitor os fl w tr = (tr1, Failed err)"
    by (simp add: monitor_def)
qed

text \<open>
  Both flags on, \<^verbatim>\<open>netstat\<close> fails and \<^verbatim>\<open>tasklist\<close> prints one process: the cycle
  shows nothing and the tracker is unchanged, so the process is neither diffed nor
  rendered, against "the other kind is still parsed, diffed, and rendered".
\<close>

theorem monitor_failure_abandons_cycle_counterexample:
  "monitor Windows \<lparr>connections = True, processes = True\<rparr>
     \<lparr>connResult = Inl ''Command failed: netstat -ano'',
      procResult = Inr (''h'' @ CHR 0x0A # ''\"chrome.exe\",\"1234\"''),
      tConnStamp = (\<lambda>idx. 0), tProcStamp = (\<lambda>idx. 0), tSweep = 0, tConnDisplay = 0,
      tProcDisplay = 0\<rparr>
     initialTracker
   = (initialTracker, Failed ''Command failed: netstat -ano'')
   \<and> parseProcesses (''h'' @ CHR 0x0A # ''\"chrome.exe\",\"1234\"'') Windows
   = [\<lparr>name = ''chrome.exe'', pid = ''1234'', user = ''N/A'', cpu = ''N/A'', mem = ''N/A'',
        proc_id = ''chrome.exe|1234''\<rparr>]"
proof (rule conjI)
  show "monitor Windows \<lparr>connections = True, processes = True\<rparr>
     \<lparr>connResult = Inl ''Command failed: netstat -ano'',
      procResult = Inr (''h'' @ CHR 0x0A # ''\"chrome.exe\",\"1234\"''),
      tConnStamp = (\<lambda>idx. 0), tProcStamp = (\<lambda>idx. 0), tSweep = 0, tConnDisplay = 0,
      tProcDisplay = 0\<rparr>
     initialTracker
   = (initialTracker, Failed ''Command failed: netstat -ano'')"
    by (simp add: monitor_def connectionsStep_def)
  show "parseProcesses (''h'' @ CHR 0x0A # ''\"chrome.exe\",\"1234\"'') Windows
   = [\<lparr>name = ''chrome.exe'', pid = ''1234'', user = ''N/A'', cpu = ''N/A'', mem = ''N/A'',
        proc_id = ''chrome.exe|1234''\<rparr>]"
    by code_simp
qed

text \<open>
  A cycle whose connections command fails, and one whose processes command fails after
  a connection was stamped.
\<close>

theorem monitor_failure_abandons_cycle_witness:
  "monitor Windows \<lparr>connections = True, processes = True\<rparr>
     \<lparr>connResult = Inl ''Command failed: netstat -ano'', procResult = Inr [],
      tConnStamp = (\<lambda>idx. 5), tProcStamp = (\<lambda>idx. 5), tSweep = 5, tConnDisplay = 5,
           tProcDisplay = 5\<rparr>
     initialTracker
   = (initialTracker, Failed ''Command failed: netstat -ano'')
   \<and> (\<exists>conns tr1.
        connectionsStep Windows \<lparr>connections = True, processes = True\<rparr>
          \<lparr>connResult = Inr ''TCP 10.0.0.1:5 10.0.0.2:80'',
           procResult = Inl ''Command failed: tasklist /v /fo csv'',
           tConnStamp = (\<lambda>idx. 5), tProcStamp = (\<lambda>idx. 5), tSweep = 5, tConnDisplay = 5,
           tProcDisplay = 5\<rparr>
          initialTracker = Inr (conns, tr1)
      \<and> previousConnections tr1 = {''TCP|10.0.0.1:5|10.0.0.2:80|N/A''}
      \<and> newConnectionTimestamps tr1 ''TCP|10.0.0.1:5|10.0.0.2:80|N/A'' = Some 5
      \<and> monitor Windows \<lparr>connections = True, processes = True\<rparr>
          \<lparr>connResult = Inr ''TCP 10.0.0.1:5 10.0.0.2:80'',
           procResult = Inl ''Command failed: tasklist /v /fo csv'',
           tConnStamp = (\<lambda>idx. 5), tProcStamp = (\<lambda>idx. 5), tSweep = 5, tConnDisplay = 5,
           tProcDisplay = 5\<rparr>
          initialTracker = (tr1, Failed ''Command failed: tasklist /v /fo csv''))"
proof -
  let ?fl = "\<lparr>connections = True, processes = True\<rparr>"
  let ?w1 = "\<lparr>connResult = Inl ''Command failed: netstat -ano'', procResult = Inr [],
      tConnStamp = (\<lambda>idx. 5), tProcStamp = (\<lambda>idx. 5), tSweep = 5, tConnDisplay = 5,
           tProcDisplay = 5\<rparr>"
  let ?w2 = "\<lparr>connResult = Inr ''TCP 10.0.0.1:5 10.0.0.2:80'',
           procResult = Inl ''Command failed: tasklist /v /fo csv'',
           tConnStamp = (\<lambda>idx. 5), tProcStamp = (\<lambda>idx. 5), tSweep = 5, tConnDisplay = 5,
           tProcDisplay = 5\<rparr>"
  let ?K = "''TCP|10.0.0.1:5|10.0.0.2:80|N/A''"
  have first: "monitor Windows ?fl ?w1 initialTracker = (initialTracker, Failed ''Command failed: netstat -ano'')"
    using monitor_failure_abandons_cycle
      [of ?fl ?w1 "''Command failed: netstat -ano''" Windows initialTracker]
    by simp
  have fl: "connections ?fl" by simp
  have res: "connResult ?w2 = Inr ''TCP 10.0.0.1:5 10.0.0.2:80''" by simp
  obtain conns tr1 where cs: "connectionsStep Windows ?fl ?w2 initialTracker = Inr (conns, tr1)"
    and tr1: "tr1 = initialTracker\<lparr>newConnectionTimestamps :=
            stampNew (previousConnections initialTracker) (tConnStamp ?w2) 0
              (map conn_id (parseConnections ''TCP 10.0.0.1:5 10.0.0.2:80'' Windows))
              (newConnectionTimestamps initialTracker),
          previousConnections := set (map conn_id (parseConnections ''TCP 10.0.0.1:5 10.0.0.2:80'' Windows))\<rparr>"
    using connectionsStep_on [OF fl res, of Windows initialTracker] by simp
  have prev: "previousConnections tr1 = {?K}"
    by (simp add: tr1 sample_conn_line)
  have stamp: "newConnectionTimestamps tr1 ?K = Some 5"
    by (simp add: tr1 sample_conn_line initialTracker_def)
  have second: "monitor Windows ?fl ?w2 initialTracker = (tr1, Failed ''Command failed: tasklist /v /fo csv'')"
    using monitor_failure_abandons_cycle
      [of ?fl ?w2 "''Command failed: tasklist /v /fo csv''" Windows initialTracker conns tr1] cs
    by simp
  show ?thesis
    using first cs prev stamp second by blast
qed

end
